theory Spec2Isabelle
  imports Main "HOL-Library.Word"
begin

unbundle bit_operations_syntax

section \<open>Common types\<close>

type_synonym u8 = "8 word"
type_synonym u32 = "32 word"

text \<open>
  \<^verbatim>\<open>EFM_ASSERT(false)\<close> halts the firmware (the note above \<^verbatim>\<open>ble_circ_push\<close>: "which
  will halt your program"). A halted call is the value \<open>Inl AssertFailed\<close>; no state
  comes back from it.

  A store past the end of an array lands on whatever the linker has placed behind it, and
  C gives the program no defined behaviour from there on. A call that makes such a store
  is the value \<open>Inl OutOfBounds\<close>; no state comes back from it either.
\<close>

datatype error = AssertFailed | OutOfBounds

section \<open>scheduler.c\<close>

text \<open>
  The private variable \<^verbatim>\<open>static unsigned int event_scheduled\<close> is a 32-bit word; the
  functions below take it and return its new value. The interrupt masking around the
  read-modify-write has no effect on the value computed.
\<close>

definition scheduler_open :: "u32" where
  "scheduler_open = 0"

definition add_scheduled_event :: "u32 \<Rightarrow> u32 \<Rightarrow> u32" where
  "add_scheduled_event event event_scheduled = event_scheduled OR event"

definition remove_scheduled_event :: "u32 \<Rightarrow> u32 \<Rightarrow> u32" where
  "remove_scheduled_event event event_scheduled = event_scheduled AND NOT event"

definition get_scheduled_events :: "u32 \<Rightarrow> u32" where
  "get_scheduled_events event_scheduled = event_scheduled"

section \<open>sleep_routines.h and the power-mode block table\<close>

definition EM0 :: nat where "EM0 = 0"
definition EM1 :: nat where "EM1 = 1"
definition EM2 :: nat where "EM2 = 2"
definition EM3 :: nat where "EM3 = 3"
definition EM4 :: nat where "EM4 = 4"
definition MAX_ENERGY_MODES :: nat where "MAX_ENERGY_MODES = 5"

text \<open>\<^verbatim>\<open>#define I2C_EM_BLOCK EM2\<close> (i2c.h) and \<^verbatim>\<open>#define LEUART_EM EM3\<close> (leuart.h).\<close>

definition I2C_EM_BLOCK :: nat where "I2C_EM_BLOCK = EM2"
definition LEUART_EM :: nat where "LEUART_EM = EM3"

text \<open>
  Modelled from the spec: \<^verbatim>\<open>sleep_block_mode\<close> and \<^verbatim>\<open>sleep_unblock_mode\<close> are declared in
  sleep_routines.h, their file sleep_routines.c is missing. The spec (4.2): "block(level)
  increments count[level]; unblock(level) decrements it (must not go below zero - a
  violation is a fatal programming error)". The table of counts, one per energy mode, is
  a function from the mode number to its count.
\<close>

definition sleep_block_mode_tbl :: "nat \<Rightarrow> (nat \<Rightarrow> nat) \<Rightarrow> (nat \<Rightarrow> nat)" where
  "sleep_block_mode_tbl EM tbl = tbl(EM := tbl EM + 1)"

definition sleep_unblock_mode_tbl :: "nat \<Rightarrow> (nat \<Rightarrow> nat) \<Rightarrow> error + (nat \<Rightarrow> nat)" where
  "sleep_unblock_mode_tbl EM tbl =
     (if tbl EM = 0 then Inl AssertFailed else Inr (tbl(EM := tbl EM - 1)))"

section \<open>Data of the drivers\<close>

subsection \<open>app.h\<close>

text \<open>
  app.h is not among the sources; only \<^verbatim>\<open>SI7021_READ_EVT\<close> (i2c.h) has a known value.
  The event masks that app.h defines are carried in the state as constants that no
  function writes, so every theorem holds for whatever values app.h gives them.
\<close>

record app_h =
  LETIMER0_COMP0_EVT :: u32
  LETIMER0_COMP1_EVT :: u32
  LETIMER0_UF_EVT :: u32
  BOOT_UP_EVT :: u32
  LEUART_TX_EVT :: u32
  LEUART_RX_EVT :: u32

definition SI7021_READ_EVT :: u32 where
  "SI7021_READ_EVT = 0x00000008"

subsection \<open>i2c.h\<close>

text \<open>The enumeration \<^verbatim>\<open>wr_command\<close>: \<^verbatim>\<open>write\<close> is 0 and \<^verbatim>\<open>read\<close> is 1.\<close>

datatype wr_command = write_cmd | read_cmd

definition wr_bit :: "wr_command \<Rightarrow> u32" where
  "wr_bit c = (case c of write_cmd \<Rightarrow> 0 | read_cmd \<Rightarrow> 1)"

datatype i2c_defined_states =
  initialize | send_measure_cmd | send_read_cmd | receive_data | end_process

text \<open>
  \<^verbatim>\<open>I2C_PAYLOAD_STRUCT\<close>. The field \<open>data\<close> is the cell that the pointer
  \<^verbatim>\<open>uint32_t *data\<close> points to (\<^verbatim>\<open>raw_data\<close> of Si7021.c): the handlers only ever
  access \<^verbatim>\<open>*payload.data\<close>. The peripheral pointer and the unused \<^verbatim>\<open>read_write\<close> are
  left out; there is one bus peripheral in the model.
\<close>

record I2C_PAYLOAD_STRUCT =
  device_address :: u32
  current_state :: i2c_defined_states
  bytes :: u32
  data :: u32
  cmd :: u32

record I2C_PAYLOAD_INIT =
  init_device_address :: u32
  init_bytes :: u32
  init_cmd :: u32

text \<open>What the driver writes to the bus peripheral's \<^verbatim>\<open>CMD\<close> and \<^verbatim>\<open>TXDATA\<close> registers, in order.\<close>

datatype i2c_write = I2C_CMD_START | I2C_CMD_ACK | I2C_CMD_NACK | I2C_CMD_STOP | I2C_TXDATA u32

text \<open>The interrupt sources that \<^verbatim>\<open>i2c_open\<close> enables.\<close>

datatype i2c_flag = I2C_IF_ACK | I2C_IF_NACK | I2C_IF_RXDATAV | I2C_IF_MSTOP

subsection \<open>leuart.h\<close>

text \<open>
  The arrays \<^verbatim>\<open>char str[80]\<close> and \<^verbatim>\<open>char received_str[80]\<close> of
  \<^verbatim>\<open>LEUART_PAYLOAD_STRUCT\<close> are lists; \<open>LEUART_STR_SIZE\<close> is their declared size.
\<close>

definition LEUART_STR_SIZE :: nat where "LEUART_STR_SIZE = 80"

datatype leuart_tx_states = begin_tx | transmit | transmit_done

datatype leuart_rx_states = idle | start | receive | done_rx

record LEUART_PAYLOAD_STRUCT =
  state :: leuart_tx_states
  count :: u32
  str :: "u8 list"
  index :: u32
  txbusy :: bool
  rx_state :: leuart_rx_states
  received_str :: "u8 list"
  rx_count :: u32
  startf :: u8
  sigf :: u8
  rxbusy :: bool

definition STARTF_CHAR :: u8 where "STARTF_CHAR = of_char CHR ''#''"
definition SIGF_CHAR :: u8 where "SIGF_CHAR = of_char CHR ''?''"

datatype leuart_flag =
  LEUART_IF_TXBL | LEUART_IF_TXC | LEUART_IF_STARTF | LEUART_IF_RXDATAV | LEUART_IF_SIGF

text \<open>
  The registers of the LEUART0 peripheral that the driver reads and writes.
  \<open>IF_latched\<close> holds the flags that stay set until software clears them through
  \<^verbatim>\<open>IFC\<close> (TXC, STARTF, SIGF). RXDATAV and TXBL are level flags of the two buffers:
  RXDATAV is up while the receive buffer holds an unread frame, TXBL while the transmit
  buffer is empty. \<open>TXDATA_written\<close> lists the bytes written to \<^verbatim>\<open>TXDATA\<close>.
\<close>

record LEUART_regs =
  IEN :: "leuart_flag set"
  IF_latched :: "leuart_flag set"
  RXBLOCK :: bool
  SFUBRX :: bool
  STARTFRAME :: u8
  SIGFRAME :: u8
  rx_buffer :: "u8 list"
  tx_buffer_empty :: bool
  TXDATA_written :: "u8 list"

subsection \<open>ble.h\<close>

definition CSIZE :: nat where "CSIZE = 64"

record BLE_CIRCULAR_BUF =
  cbuf :: "u8 list"
  size_mask :: u8
  size_c :: u32
  read_ptr :: u32
  write_ptr :: u32

subsection \<open>The static variables of all modules\<close>

text \<open>
  \<open>event_scheduled\<close> (scheduler.c), the block table (sleep_routines.c), \<open>payload\<close>
  (i2c.c), \<open>lePayload\<close>, \<open>tx_done_evt\<close>, \<open>rx_done_evt\<close> (leuart.c), \<open>ble_cbuf\<close> and
  \<open>test_struct.result_str\<close> (ble.c), with the registers of the two peripherals.
  \<open>posted\<close> is not a variable of the firmware: it records every call of
  \<^verbatim>\<open>add_scheduled_event\<close> with its argument, so that the number of events posted can
  be counted although the pending word coalesces them.
\<close>

record system =
  app :: app_h
  event_scheduled :: u32
  posted :: "u32 list"
  blocks :: "nat \<Rightarrow> nat"
  payload :: I2C_PAYLOAD_STRUCT
  i2c_written :: "i2c_write list"
  lePayload :: LEUART_PAYLOAD_STRUCT
  tx_done_evt :: u32
  rx_done_evt :: u32
  LEUART0 :: LEUART_regs
  ble_cbuf :: BLE_CIRCULAR_BUF
  result_str :: "u8 list"

text \<open>The calls of the scheduler and of the sleep routines, on the whole state.\<close>

definition post_event :: "u32 \<Rightarrow> system \<Rightarrow> system" where
  "post_event event s =
     s\<lparr>event_scheduled := add_scheduled_event event (event_scheduled s),
       posted := posted s @ [event]\<rparr>"

definition clear_event :: "u32 \<Rightarrow> system \<Rightarrow> system" where
  "clear_event event s =
     s\<lparr>event_scheduled := remove_scheduled_event event (event_scheduled s)\<rparr>"

definition sleep_block_mode :: "nat \<Rightarrow> system \<Rightarrow> system" where
  "sleep_block_mode EM s = s\<lparr>blocks := sleep_block_mode_tbl EM (blocks s)\<rparr>"

definition sleep_unblock_mode :: "nat \<Rightarrow> system \<Rightarrow> error + system" where
  "sleep_unblock_mode EM s =
     (case sleep_unblock_mode_tbl EM (blocks s) of
        Inl e \<Rightarrow> Inl e
      | Inr tbl \<Rightarrow> Inr (s\<lparr>blocks := tbl\<rparr>))"

section \<open>leuart.c\<close>

subsection \<open>The peripheral as the driver sees it\<close>

text \<open>
  The interrupt flag register read by software: the latched flags and the two level
  flags.
\<close>

definition IF_reg :: "LEUART_regs \<Rightarrow> leuart_flag set" where
  "IF_reg r =
     IF_latched r
     \<union> (if rx_buffer r = [] then {} else {LEUART_IF_RXDATAV})
     \<union> (if tx_buffer_empty r then {LEUART_IF_TXBL} else {})"

text \<open>Reading \<^verbatim>\<open>RXDATA\<close> takes the oldest frame out of the receive buffer.\<close>

definition RXDATA_read :: "LEUART_regs \<Rightarrow> u8 \<times> LEUART_regs" where
  "RXDATA_read r =
     (case rx_buffer r of
        [] \<Rightarrow> (0, r)
      | c # cs \<Rightarrow> (c, r\<lparr>rx_buffer := cs\<rparr>))"

text \<open>Writing \<^verbatim>\<open>TXDATA\<close> fills the transmit buffer, which takes TXBL down.\<close>

definition TXDATA_write :: "u8 \<Rightarrow> LEUART_regs \<Rightarrow> LEUART_regs" where
  "TXDATA_write c r = r\<lparr>tx_buffer_empty := False, TXDATA_written := TXDATA_written r @ [c]\<rparr>"

text \<open>
  What the hardware does between two instructions of the firmware. The receive path is
  the one that the driver's own test \<^verbatim>\<open>leuart_rx_test\<close> checks step by step in loopback:
  while RXBLOCK is on a frame is not loaded (the \<^verbatim>\<open>'a'\<close> sent first leaves RXDATAV down);
  a frame equal to \<^verbatim>\<open>STARTFRAME\<close> raises STARTF, lifts RXBLOCK when SFUBRX is set and is
  itself loaded ("\<^verbatim>\<open>EFM_ASSERT(leuart->RXDATA == startf)\<close>"); a frame equal to
  \<^verbatim>\<open>SIGFRAME\<close> raises SIGF and is loaded too ("\<^verbatim>\<open>EFM_ASSERT(leuart->RXDATA == sigf)\<close>").
  On the transmit side the buffer empties (TXBL up) and the last frame leaves the shift
  register (TXC raised).
\<close>

datatype hw_event = RX_frame u8 | TX_buffer_empty | TX_complete

definition leuart_hw :: "hw_event \<Rightarrow> LEUART_regs \<Rightarrow> LEUART_regs" where
  "leuart_hw ev r =
     (case ev of
        RX_frame c \<Rightarrow>
          (let r1 = (if c = STARTFRAME r
                     then r\<lparr>IF_latched := insert LEUART_IF_STARTF (IF_latched r),
                            RXBLOCK := (if SFUBRX r then False else RXBLOCK r)\<rparr>
                     else r);
               r2 = (if RXBLOCK r1 then r1 else r1\<lparr>rx_buffer := rx_buffer r1 @ [c]\<rparr>)
           in (if c = SIGFRAME r
               then r2\<lparr>IF_latched := insert LEUART_IF_SIGF (IF_latched r2)\<rparr>
               else r2))
      | TX_buffer_empty \<Rightarrow> r\<lparr>tx_buffer_empty := True\<rparr>
      | TX_complete \<Rightarrow> r\<lparr>IF_latched := insert LEUART_IF_TXC (IF_latched r)\<rparr>)"

subsection \<open>The driver\<close>

text \<open>
  \<^verbatim>\<open>leuart_open\<close>. \<^verbatim>\<open>LEUART_Reset\<close> and the \<^verbatim>\<open>CLEARRX | CLEARTX\<close> command leave no
  interrupt enabled, no flag latched and both buffers empty. The assertions of this
  function test the clock tree and the status register of a working peripheral and pass
  there. Baud rate, routing and the NVIC enable have no part in the model.
\<close>

definition leuart_open :: "system \<Rightarrow> system" where
  "leuart_open s =
     (let r0 = (LEUART0 s)\<lparr>IEN := {}, IF_latched := {}, rx_buffer := [],
                            tx_buffer_empty := True\<rparr>;
          s1 = s\<lparr>LEUART0 := r0,
                 tx_done_evt := LEUART_TX_EVT (app s),
                 rx_done_evt := LEUART_RX_EVT (app s),
                 lePayload := (lePayload s)\<lparr>txbusy := False\<rparr>\<rparr>;
          r1 = (LEUART0 s1)\<lparr>STARTFRAME := of_char CHR ''#'', SIGFRAME := of_char CHR ''?'',
                            RXBLOCK := True, SFUBRX := True\<rparr>;
          s2 = s1\<lparr>LEUART0 := r1,
                  lePayload := (lePayload s1)\<lparr>rxbusy := False, startf := STARTF_CHAR,
                                               sigf := SIGF_CHAR, rx_state := idle\<rparr>\<rparr>;
          s3 = sleep_block_mode LEUART_EM s2;
          r3 = (LEUART0 s3)\<lparr>IF_latched := IF_latched (LEUART0 s3)
                                           - {LEUART_IF_TXC, LEUART_IF_STARTF, LEUART_IF_SIGF}\<rparr>;
          r4 = r3\<lparr>IEN := insert LEUART_IF_STARTF (IEN r3)\<rparr>;
          r5 = r4\<lparr>IEN := IEN r4 - {LEUART_IF_SIGF}\<rparr>;
          r6 = r5\<lparr>IEN := IEN r5 - {LEUART_IF_RXDATAV}\<rparr>
      in s3\<lparr>LEUART0 := r6\<rparr>)"

text \<open>
  \<^verbatim>\<open>strcpy(lePayload.str, string)\<close>: the characters of \<open>string\<close> before its first zero
  byte, then a zero byte, over the front of the destination.
\<close>

definition strlen :: "u8 list \<Rightarrow> nat" where
  "strlen string = length (takeWhile (\<lambda>c. c \<noteq> 0) string)"

definition strcpy :: "u8 list \<Rightarrow> u8 list \<Rightarrow> u8 list" where
  "strcpy dest string =
     take (strlen string) string @ [0] @ drop (strlen string + 1) dest"

definition leuart_start :: "u8 list \<Rightarrow> u32 \<Rightarrow> system \<Rightarrow> system" where
  "leuart_start string string_len s =
     (let s1 = sleep_block_mode LEUART_EM s;
          lp = (lePayload s1)\<lparr>txbusy := True, state := transmit, count := string_len,
                               index := 0, str := strcpy (str (lePayload s1)) string\<rparr>;
          r = (LEUART0 s1)\<lparr>IF_latched := IF_latched (LEUART0 s1) - {LEUART_IF_TXC}\<rparr>
      in s1\<lparr>lePayload := lp, LEUART0 := r\<lparr>IEN := insert LEUART_IF_TXBL (IEN r)\<rparr>\<rparr>)"

definition TXBL_Interrupt :: "system \<Rightarrow> error + system" where
  "TXBL_Interrupt s =
     (case state (lePayload s) of
        begin_tx \<Rightarrow> Inl AssertFailed
      | transmit \<Rightarrow>
          (let s1 = (if count (lePayload s) > 0
                     then s\<lparr>lePayload := (lePayload s)\<lparr>count := count (lePayload s) - 1,
                                                        index := index (lePayload s) + 1\<rparr>,
                            LEUART0 := TXDATA_write (str (lePayload s) ! unat (index (lePayload s)))
                                         (LEUART0 s)\<rparr>
                     else s);
               s2 = (if count (lePayload s1) = 0
                     then s1\<lparr>lePayload := (lePayload s1)\<lparr>state := transmit_done\<rparr>,
                             LEUART0 := (LEUART0 s1)\<lparr>IEN := insert LEUART_IF_TXC
                                                         (IEN (LEUART0 s1) - {LEUART_IF_TXBL})\<rparr>\<rparr>
                     else s1)
           in Inr s2)
      | transmit_done \<Rightarrow> Inl AssertFailed)"

definition TXC_Interrupt :: "system \<Rightarrow> error + system" where
  "TXC_Interrupt s =
     (case state (lePayload s) of
        begin_tx \<Rightarrow> Inl AssertFailed
      | transmit \<Rightarrow> Inl AssertFailed
      | transmit_done \<Rightarrow>
          (case sleep_unblock_mode LEUART_EM s of
             Inl e \<Rightarrow> Inl e
           | Inr s1 \<Rightarrow>
               (let s2 = post_event (tx_done_evt s1) s1
                in Inr (s2\<lparr>lePayload := (lePayload s2)\<lparr>txbusy := False\<rparr>\<rparr>))))"

definition STARTF_Interrupt :: "system \<Rightarrow> error + system" where
  "STARTF_Interrupt s =
     (case rx_state (lePayload s) of
        idle \<Rightarrow>
          (if rxbusy (lePayload s) = False
           then (let r = (LEUART0 s)\<lparr>IEN := insert LEUART_IF_RXDATAV (IEN (LEUART0 s))\<rparr>;
                     r' = r\<lparr>IEN := insert LEUART_IF_SIGF (IEN r)\<rparr>
                 in Inr (s\<lparr>lePayload := (lePayload s)\<lparr>rxbusy := True, rx_count := 0,
                                                        rx_state := start\<rparr>,
                           LEUART0 := r'\<rparr>))
           else Inl AssertFailed)
      | start \<Rightarrow> Inl AssertFailed
      | receive \<Rightarrow> Inl AssertFailed
      | done_rx \<Rightarrow> Inl AssertFailed)"

text \<open>
  The two handlers that store into \<^verbatim>\<open>received_str[rx_count]\<close>. Nothing in the driver
  bounds \<open>rx_count\<close>: from 80 on the store is past the end of the array, where the
  structure continues with \<open>rx_count\<close> itself.
\<close>

definition RXDATAV_Interrupt :: "system \<Rightarrow> error + system" where
  "RXDATAV_Interrupt s =
     (case rx_state (lePayload s) of
        idle \<Rightarrow> Inl AssertFailed
      | start \<Rightarrow> Inr (s\<lparr>lePayload := (lePayload s)\<lparr>rx_state := receive\<rparr>\<rparr>)
      | receive \<Rightarrow>
          (let (c, r) = RXDATA_read (LEUART0 s);
               lp = lePayload s
           in if unat (rx_count lp) < LEUART_STR_SIZE
              then Inr (s\<lparr>lePayload := lp\<lparr>received_str := (received_str lp)[unat (rx_count lp) := c],
                                           rx_count := rx_count lp + 1\<rparr>,
                        LEUART0 := r\<rparr>)
              else Inl OutOfBounds)
      | done_rx \<Rightarrow> Inl AssertFailed)"

definition SIGF_Interrupt :: "system \<Rightarrow> error + system" where
  "SIGF_Interrupt s =
     (case rx_state (lePayload s) of
        idle \<Rightarrow> Inl AssertFailed
      | start \<Rightarrow> Inl AssertFailed
      | receive \<Rightarrow>
          (let lp = lePayload s
           in if unat (rx_count lp) < LEUART_STR_SIZE
              then
                (let lp1 = lp\<lparr>received_str := (received_str lp)[unat (rx_count lp) := 0],
                            rx_count := rx_count lp + 1\<rparr>;
                     r = (LEUART0 s)\<lparr>IEN := IEN (LEUART0 s) - {LEUART_IF_SIGF}\<rparr>;
                     r1 = r\<lparr>IEN := IEN r - {LEUART_IF_RXDATAV}\<rparr>;
                     r2 = r1\<lparr>RXBLOCK := True\<rparr>;
                     s1 = post_event (LEUART_RX_EVT (app s)) (s\<lparr>lePayload := lp1, LEUART0 := r2\<rparr>)
                 in Inr (s1\<lparr>lePayload := (lePayload s1)\<lparr>rx_state := idle, rxbusy := False\<rparr>\<rparr>))
              else Inl OutOfBounds)
      | done_rx \<Rightarrow> Inl AssertFailed)"

text \<open>
  \<^verbatim>\<open>LEUART0_IRQHandler\<close>: the enabled flags that are up are stored in \<open>int_flag\<close>, the
  latched ones among them are cleared through \<^verbatim>\<open>IFC\<close>, and the handlers of the stored
  flags run in the order TXBL, TXC, STARTF, RXDATAV, SIGF. A handler that halts ends
  the call.
\<close>

fun dispatch :: "('f \<times> (system \<Rightarrow> error + system)) list \<Rightarrow> 'f set
                 \<Rightarrow> system \<Rightarrow> error + system" where
  "dispatch [] int_flag s = Inr s"
| "dispatch ((f, h) # hs) int_flag s =
     (if f \<in> int_flag
      then (case h s of Inl e \<Rightarrow> Inl e | Inr s' \<Rightarrow> dispatch hs int_flag s')
      else dispatch hs int_flag s)"

definition LEUART0_IRQHandler :: "system \<Rightarrow> error + system" where
  "LEUART0_IRQHandler s =
     (let int_flag = IF_reg (LEUART0 s) \<inter> IEN (LEUART0 s);
          s0 = s\<lparr>LEUART0 := (LEUART0 s)\<lparr>IF_latched := IF_latched (LEUART0 s) - int_flag\<rparr>\<rparr>
      in dispatch [(LEUART_IF_TXBL, TXBL_Interrupt),
                   (LEUART_IF_TXC, TXC_Interrupt),
                   (LEUART_IF_STARTF, STARTF_Interrupt),
                   (LEUART_IF_RXDATAV, RXDATAV_Interrupt),
                   (LEUART_IF_SIGF, SIGF_Interrupt)] int_flag s0)"

definition leuart_tx_busy :: "system \<Rightarrow> bool" where
  "leuart_tx_busy s = txbusy (lePayload s)"

definition leuart_rx_busy :: "system \<Rightarrow> bool" where
  "leuart_rx_busy s = rxbusy (lePayload s)"

subsection \<open>Interrupts taken by the processor\<close>

text \<open>
  While an enabled flag is up the interrupt line is asserted, and the processor enters
  \<^verbatim>\<open>LEUART0_IRQHandler\<close> again as soon as it has left it. \<open>service\<close> runs the handler
  until the line is down; it has no value (\<open>None\<close>) when that never happens.
\<close>

definition irq_pending :: "system \<Rightarrow> bool" where
  "irq_pending s = (IF_reg (LEUART0 s) \<inter> IEN (LEUART0 s) \<noteq> {})"

partial_function (option) service :: "system \<Rightarrow> (error + system) option" where
  "service s =
     (if irq_pending s
      then (case LEUART0_IRQHandler s of
              Inl e \<Rightarrow> Some (Inl e)
            | Inr s' \<Rightarrow> service s')
      else Some (Inr s))"

declare service.simps [code]

text \<open>One hardware event, then the interrupts it causes.\<close>

definition hw_step :: "hw_event \<Rightarrow> system \<Rightarrow> (error + system) option" where
  "hw_step ev s = service (s\<lparr>LEUART0 := leuart_hw ev (LEUART0 s)\<rparr>)"

fun hw_run :: "hw_event list \<Rightarrow> system \<Rightarrow> (error + system) option" where
  "hw_run [] s = Some (Inr s)"
| "hw_run (ev # evs) s =
     (case hw_step ev s of
        None \<Rightarrow> None
      | Some (Inl e) \<Rightarrow> Some (Inl e)
      | Some (Inr s') \<Rightarrow> hw_run evs s')"

text \<open>The bytes of a text, and the C string that a buffer holds.\<close>

definition bytes_of :: "string \<Rightarrow> u8 list" where
  "bytes_of cs = map of_char cs"

definition c_string :: "u8 list \<Rightarrow> u8 list" where
  "c_string buf = takeWhile (\<lambda>c. c \<noteq> 0) buf"

section \<open>i2c.c\<close>

text \<open>
  \<^verbatim>\<open>I2C_Start\<close>. The assertion reads the peripheral's \<^verbatim>\<open>STATE\<close> register; what it finds
  there is the argument \<open>peripheral_idle\<close>. The pointer \<^verbatim>\<open>payload.data\<close> is set to the
  caller's buffer, whose content \<open>data\<close> is not touched here.
\<close>

definition I2C_Start :: "bool \<Rightarrow> I2C_PAYLOAD_INIT \<Rightarrow> system \<Rightarrow> error + system" where
  "I2C_Start peripheral_idle i2c_load s =
     (if \<not> peripheral_idle then Inl AssertFailed
      else
        (let s1 = sleep_block_mode I2C_EM_BLOCK s;
             p = (payload s1)\<lparr>device_address := init_device_address i2c_load,
                               bytes := init_bytes i2c_load,
                               cmd := init_cmd i2c_load,
                               current_state := initialize\<rparr>
         in Inr (s1\<lparr>payload := p,
                   i2c_written := i2c_written s1 @
                     [I2C_CMD_START,
                      I2C_TXDATA (push_bit 1 (init_device_address i2c_load) OR wr_bit write_cmd)]\<rparr>)))"

definition I2C_ACK :: "system \<Rightarrow> error + system" where
  "I2C_ACK s =
     (case current_state (payload s) of
        initialize \<Rightarrow>
          Inr (s\<lparr>i2c_written := i2c_written s @ [I2C_TXDATA (cmd (payload s))],
                payload := (payload s)\<lparr>current_state := send_measure_cmd\<rparr>\<rparr>)
      | send_measure_cmd \<Rightarrow>
          Inr (s\<lparr>i2c_written := i2c_written s @
                  [I2C_CMD_START,
                   I2C_TXDATA (push_bit 1 (device_address (payload s)) OR wr_bit read_cmd)],
                payload := (payload s)\<lparr>current_state := send_read_cmd\<rparr>\<rparr>)
      | send_read_cmd \<Rightarrow> Inr (s\<lparr>payload := (payload s)\<lparr>current_state := receive_data\<rparr>\<rparr>)
      | receive_data \<Rightarrow> Inl AssertFailed
      | end_process \<Rightarrow> Inl AssertFailed)"

definition I2C_NACK :: "system \<Rightarrow> error + system" where
  "I2C_NACK s =
     (case current_state (payload s) of
        initialize \<Rightarrow> Inl AssertFailed
      | send_measure_cmd \<Rightarrow> Inl AssertFailed
      | send_read_cmd \<Rightarrow>
          Inr (s\<lparr>i2c_written := i2c_written s @
                  [I2C_CMD_START,
                   I2C_TXDATA (push_bit 1 (device_address (payload s)) OR wr_bit read_cmd)]\<rparr>)
      | receive_data \<Rightarrow> Inl AssertFailed
      | end_process \<Rightarrow> Inl AssertFailed)"

text \<open>
  \<^verbatim>\<open>I2C_RXDATAV\<close>; \<open>RXDATA\<close> is the byte in the peripheral's receive register, read as a
  32-bit register value.
\<close>

definition I2C_RXDATAV :: "u8 \<Rightarrow> system \<Rightarrow> error + system" where
  "I2C_RXDATAV RXDATA s =
     (case current_state (payload s) of
        initialize \<Rightarrow> Inl AssertFailed
      | send_measure_cmd \<Rightarrow> Inl AssertFailed
      | send_read_cmd \<Rightarrow> Inl AssertFailed
      | receive_data \<Rightarrow>
          (let p = (payload s)\<lparr>bytes := bytes (payload s) - 1\<rparr>
           in if bytes p > 0
              then Inr (s\<lparr>payload := p\<lparr>data := push_bit 8 (ucast RXDATA)\<rparr>,
                         i2c_written := i2c_written s @ [I2C_CMD_ACK]\<rparr>)
              else Inr (s\<lparr>payload := p\<lparr>data := data p OR ucast RXDATA,
                                        current_state := end_process\<rparr>,
                         i2c_written := i2c_written s @ [I2C_CMD_NACK, I2C_CMD_STOP]\<rparr>))
      | end_process \<Rightarrow> Inl AssertFailed)"

definition I2C_MSTOP :: "system \<Rightarrow> error + system" where
  "I2C_MSTOP s =
     (case current_state (payload s) of
        initialize \<Rightarrow> Inl AssertFailed
      | send_measure_cmd \<Rightarrow> Inl AssertFailed
      | send_read_cmd \<Rightarrow> Inl AssertFailed
      | receive_data \<Rightarrow> Inl AssertFailed
      | end_process \<Rightarrow>
          (case sleep_unblock_mode I2C_EM_BLOCK (post_event SI7021_READ_EVT s) of
             Inl e \<Rightarrow> Inl e
           | Inr s1 \<Rightarrow> Inr (s1\<lparr>payload := (payload s1)\<lparr>current_state := initialize\<rparr>\<rparr>)))"

text \<open>
  \<^verbatim>\<open>I2C0_IRQHandler\<close>: \<open>int_flag\<close> is \<^verbatim>\<open>I2C0->IF & I2C0->IEN\<close> as the handler reads it,
  \<open>RXDATA\<close> the receive register at that moment. The handlers run in the order ACK,
  NACK, RXDATAV, MSTOP.
\<close>

definition I2C0_IRQHandler :: "i2c_flag set \<Rightarrow> u8 \<Rightarrow> system \<Rightarrow> error + system" where
  "I2C0_IRQHandler int_flag RXDATA s =
     dispatch [(I2C_IF_ACK, I2C_ACK),
               (I2C_IF_NACK, I2C_NACK),
               (I2C_IF_RXDATAV, I2C_RXDATAV RXDATA),
               (I2C_IF_MSTOP, I2C_MSTOP)] int_flag s"

text \<open>
  The bus as the engine sees it: a sequence of interrupts, each with the flags that are
  up and the content of the receive register.
\<close>

datatype i2c_signal = Ack | Nack | Byte u8 | Stop

definition i2c_interrupt :: "i2c_signal \<Rightarrow> system \<Rightarrow> error + system" where
  "i2c_interrupt sig s =
     (case sig of
        Ack \<Rightarrow> I2C0_IRQHandler {I2C_IF_ACK} 0 s
      | Nack \<Rightarrow> I2C0_IRQHandler {I2C_IF_NACK} 0 s
      | Byte b \<Rightarrow> I2C0_IRQHandler {I2C_IF_RXDATAV} b s
      | Stop \<Rightarrow> I2C0_IRQHandler {I2C_IF_MSTOP} 0 s)"

fun i2c_run :: "i2c_signal list \<Rightarrow> system \<Rightarrow> error + system" where
  "i2c_run [] s = Inr s"
| "i2c_run (sig # sigs) s =
     (case i2c_interrupt sig s of Inl e \<Rightarrow> Inl e | Inr s' \<Rightarrow> i2c_run sigs s')"

text \<open>
  A transaction with a device that acknowledges its address and the command, does not
  acknowledge the first read address, acknowledges the second, sends the bytes \<open>bs\<close>
  and stops.
\<close>

definition i2c_device_script :: "u8 list \<Rightarrow> i2c_signal list" where
  "i2c_device_script bs = [Ack, Ack, Nack, Ack] @ map Byte bs @ [Stop]"

definition i2c_transaction :: "I2C_PAYLOAD_INIT \<Rightarrow> i2c_signal list \<Rightarrow> system \<Rightarrow> error + system" where
  "i2c_transaction i2c_load sigs s =
     (case I2C_Start True i2c_load s of Inl e \<Rightarrow> Inl e | Inr s' \<Rightarrow> i2c_run sigs s')"

text \<open>The value that a list of bytes spells, most significant byte first.\<close>

definition msb_first :: "u8 list \<Rightarrow> u32" where
  "msb_first bs = foldl (\<lambda>acc b. push_bit 8 acc OR ucast b) 0 bs"

section \<open>ble.c: the circular buffer of outgoing packets\<close>

definition ble_circ_init :: "BLE_CIRCULAR_BUF \<Rightarrow> BLE_CIRCULAR_BUF" where
  "ble_circ_init b =
     b\<lparr>size_c := of_nat CSIZE, size_mask := of_nat CSIZE, write_ptr := 0, read_ptr := 0\<rparr>"

definition ble_circ_space :: "BLE_CIRCULAR_BUF \<Rightarrow> u8" where
  "ble_circ_space b = ucast (size_c b)"

definition update_circ_wrtindex :: "BLE_CIRCULAR_BUF \<Rightarrow> u32 \<Rightarrow> BLE_CIRCULAR_BUF" where
  "update_circ_wrtindex index_struct update_by =
     index_struct\<lparr>write_ptr := (write_ptr index_struct + update_by) mod 64\<rparr>"

definition update_circ_readindex :: "BLE_CIRCULAR_BUF \<Rightarrow> u32 \<Rightarrow> BLE_CIRCULAR_BUF" where
  "update_circ_readindex index_struct update_by =
     index_struct\<lparr>read_ptr := (read_ptr index_struct + update_by) mod 64\<rparr>"

text \<open>
  The \<^verbatim>\<open>while (index != length)\<close> loop of \<^verbatim>\<open>ble_circ_push\<close>, over the characters
  \<^verbatim>\<open>string[0] .. string[length - 1]\<close>.
\<close>

fun push_loop :: "u8 list \<Rightarrow> BLE_CIRCULAR_BUF \<Rightarrow> BLE_CIRCULAR_BUF" where
  "push_loop [] b = b"
| "push_loop (c # cs) b =
     push_loop cs (update_circ_wrtindex (b\<lparr>cbuf := (cbuf b)[unat (write_ptr b) := c]\<rparr>) 1)"

text \<open>
  \<^verbatim>\<open>ble_circ_push\<close>. \<open>string\<close> is the memory that the argument points to, its C string
  ending before the first zero byte. In the comparison \<^verbatim>\<open>ble_cbuf.size < length\<close> the
  length is converted to the unsigned type of the counter. \<^verbatim>\<open>ble_circ_space()\<close> returns the counter
  cut to eight bits; the difference is stored back into the 32-bit counter, where a
  negative value wraps.
\<close>

definition ble_circ_push :: "u8 list \<Rightarrow> BLE_CIRCULAR_BUF \<Rightarrow> error + BLE_CIRCULAR_BUF" where
  "ble_circ_push string b =
     (let len = strlen string
      in if size_c b < of_nat len then Inl AssertFailed
         else
           (let b1 = update_circ_wrtindex
                       (b\<lparr>cbuf := (cbuf b)[unat (write_ptr b) := of_nat len]\<rparr>) 1;
                b2 = push_loop (take len string) b1
            in Inr (b2\<lparr>size_c := ucast (ble_circ_space b2) - of_nat (len + 1)\<rparr>)))"

text \<open>
  The \<^verbatim>\<open>while (index != length)\<close> loop of \<^verbatim>\<open>ble_circ_pop\<close>; the result is
  \<^verbatim>\<open>string_array[0] .. string_array[length - 1]\<close> and the buffer with its read index
  advanced. On the target \<^verbatim>\<open>char\<close> is unsigned, so the length byte is read as it was
  written.
\<close>

fun pop_loop :: "nat \<Rightarrow> BLE_CIRCULAR_BUF \<Rightarrow> u8 list \<times> BLE_CIRCULAR_BUF" where
  "pop_loop 0 b = ([], b)"
| "pop_loop (Suc n) b =
     (let c = cbuf b ! unat (read_ptr b);
          (cs, b') = pop_loop n (update_circ_readindex b 1)
      in (c # cs, b'))"

text \<open>
  The busy-wait \<^verbatim>\<open>while(leuart_tx_busy(LEUART0));\<close>. Nothing but an interrupt changes
  \<open>txbusy\<close>, so the loop is followed along the hardware events that occur while it
  polls: \<open>evs\<close> lists all that ever occur. When they are used up and the flag is still
  set, the loop spins for ever and there is no value.
\<close>

fun wait_while_tx_busy :: "hw_event list \<Rightarrow> system \<Rightarrow> (error + system) option" where
  "wait_while_tx_busy [] s = (if leuart_tx_busy s then None else Some (Inr s))"
| "wait_while_tx_busy (ev # evs) s =
     (if leuart_tx_busy s
      then (case hw_step ev s of
              None \<Rightarrow> None
            | Some (Inl e) \<Rightarrow> Some (Inl e)
            | Some (Inr s') \<Rightarrow> wait_while_tx_busy evs s')
      else Some (Inr s))"

text \<open>
  \<^verbatim>\<open>ble_circ_pop\<close>; \<open>len\<close> stands for the local \<^verbatim>\<open>length\<close>. \<open>tx_idle\<close> is the bit \<^verbatim>\<open>LEUART_STATUS_TXIDLE\<close> of the status register
  at the call. In test mode the loop \<^verbatim>\<open>for (i = 0; i < length; i++)\<close> stores the packet
  into \<^verbatim>\<open>test_struct.result_str[i]\<close>, an array of \<^verbatim>\<open>CSIZE\<close> characters: a length byte
  above \<^verbatim>\<open>CSIZE\<close> takes the stores past its end. Otherwise the packet goes to
  \<^verbatim>\<open>leuart_start\<close>, the interrupts that this enables are taken, and the function polls
  \<open>txbusy\<close>.
\<close>

definition send_and_wait :: "u8 list \<Rightarrow> nat \<Rightarrow> hw_event list \<Rightarrow> system \<Rightarrow> (error + system) option" where
  "send_and_wait string_array len evs s =
     (case service (leuart_start string_array (of_nat len) s) of
        None \<Rightarrow> None
      | Some (Inl e) \<Rightarrow> Some (Inl e)
      | Some (Inr s') \<Rightarrow> wait_while_tx_busy evs s')"

definition ble_circ_pop :: "bool \<Rightarrow> bool \<Rightarrow> hw_event list \<Rightarrow> system
                            \<Rightarrow> (error + bool \<times> system) option" where
  "ble_circ_pop test tx_idle evs s =
     (if \<not> tx_idle then Some (Inr (True, s))
      else if size_c (ble_cbuf s) = of_nat CSIZE then Some (Inr (True, s))
      else
        (let len = unat (cbuf (ble_cbuf s) ! unat (read_ptr (ble_cbuf s)));
             (chars, b1) = pop_loop len (update_circ_readindex (ble_cbuf s) 1);
             string_array = chars @ [0];
             s1 = s\<lparr>ble_cbuf := b1\<rparr>
         in case (if test = True
                  then (if len \<le> CSIZE
                        then Some (Inr (s1\<lparr>result_str := take len string_array
                                                           @ drop len (result_str s1)\<rparr>))
                        else Some (Inl OutOfBounds))
                  else send_and_wait string_array len evs s1) of
              None \<Rightarrow> None
            | Some (Inl e) \<Rightarrow> Some (Inl e)
            | Some (Inr s2) \<Rightarrow>
                Some (Inr (False,
                  s2\<lparr>ble_cbuf := (ble_cbuf s2)\<lparr>size_c :=
                        ucast (ble_circ_space (ble_cbuf s2)) + of_nat len + 1\<rparr>\<rparr>))))"

text \<open>\<^verbatim>\<open>ble_write\<close>: a push, then a pop in operating mode.\<close>

definition ble_write :: "u8 list \<Rightarrow> bool \<Rightarrow> hw_event list \<Rightarrow> system
                         \<Rightarrow> (error + system) option" where
  "ble_write string tx_idle evs s =
     (case ble_circ_push string (ble_cbuf s) of
        Inl e \<Rightarrow> Some (Inl e)
      | Inr b \<Rightarrow>
          (case ble_circ_pop False tx_idle evs (s\<lparr>ble_cbuf := b\<rparr>) of
             None \<Rightarrow> None
           | Some (Inl e) \<Rightarrow> Some (Inl e)
           | Some (Inr (r, s')) \<Rightarrow> Some (Inr s')))"

text \<open>
  Sequences of queue operations, stopping at the first that ends with an error or
  hangs. The result
  is the list of the values that the pops have returned, in order, and the final state.
\<close>

datatype queue_op = Push "u8 list" | Pop bool bool "hw_event list"

fun queue_run :: "queue_op list \<Rightarrow> system \<Rightarrow> (error + bool list \<times> system) option" where
  "queue_run [] s = Some (Inr ([], s))"
| "queue_run (Push string # ops) s =
     (case ble_circ_push string (ble_cbuf s) of
        Inl e \<Rightarrow> Some (Inl e)
      | Inr b \<Rightarrow> queue_run ops (s\<lparr>ble_cbuf := b\<rparr>))"
| "queue_run (Pop test tx_idle evs # ops) s =
     (case ble_circ_pop test tx_idle evs s of
        None \<Rightarrow> None
      | Some (Inl e) \<Rightarrow> Some (Inl e)
      | Some (Inr (r, s')) \<Rightarrow>
          (case queue_run ops s' of
             None \<Rightarrow> None
           | Some (Inl e) \<Rightarrow> Some (Inl e)
           | Some (Inr (rs, s'')) \<Rightarrow> Some (Inr (r # rs, s''))))"

section \<open>main.c\<close>

text \<open>
  The event handlers that the loop of \<^verbatim>\<open>main\<close> calls are functions of app.c, and
  \<^verbatim>\<open>enter_sleep\<close> is one of sleep_routines.c. The body of the loop is modelled for any
  such functions: what matters here is which bits of the pending word the loop tests and
  in which order.
\<close>

record handlers =
  enter_sleep :: "system \<Rightarrow> (error + system) option"
  scheduled_letimer0_uf_evt :: "system \<Rightarrow> (error + system) option"
  scheduled_letimer0_comp0_evt :: "system \<Rightarrow> (error + system) option"
  scheduled_letimer0_comp1_evt :: "system \<Rightarrow> (error + system) option"
  Si7021_temp_done_evt :: "system \<Rightarrow> (error + system) option"
  scheduled_boot_up_evt :: "system \<Rightarrow> (error + system) option"
  scheduled_leuart0_tx_done_evt :: "system \<Rightarrow> (error + system) option"

text \<open>
  The \<^verbatim>\<open>if\<close> statements of the loop body, in their order: each condition is tested in
  the state that the statements before it have left, and a call that halts or does not
  return ends the pass.
\<close>

fun run_ifs :: "((system \<Rightarrow> bool) \<times> (system \<Rightarrow> (error + system) option)) list \<Rightarrow> system
                \<Rightarrow> (error + system) option" where
  "run_ifs [] s = Some (Inr s)"
| "run_ifs ((cond, call) # rest) s =
     (if cond s
      then (case call s of
              None \<Rightarrow> None
            | Some (Inl e) \<Rightarrow> Some (Inl e)
            | Some (Inr s') \<Rightarrow> run_ifs rest s')
      else run_ifs rest s)"

definition pending :: "u32 \<Rightarrow> system \<Rightarrow> bool" where
  "pending event s = (get_scheduled_events (event_scheduled s) AND event \<noteq> 0)"

definition main_loop_body :: "handlers \<Rightarrow> system \<Rightarrow> (error + system) option" where
  "main_loop_body h s =
     run_ifs
       [(\<lambda>s. get_scheduled_events (event_scheduled s) = 0, enter_sleep h),
        (\<lambda>s. pending (LETIMER0_UF_EVT (app s)) s, scheduled_letimer0_uf_evt h),
        (\<lambda>s. pending (LETIMER0_COMP0_EVT (app s)) s, scheduled_letimer0_comp0_evt h),
        (\<lambda>s. pending (LETIMER0_COMP1_EVT (app s)) s, scheduled_letimer0_comp1_evt h),
        (\<lambda>s. pending SI7021_READ_EVT s, Si7021_temp_done_evt h),
        (\<lambda>s. pending (BOOT_UP_EVT (app s)) s, scheduled_boot_up_evt h),
        (\<lambda>s. pending (LEUART_TX_EVT (app s)) s, scheduled_leuart0_tx_done_evt h)] s"

text \<open>The loop \<^verbatim>\<open>while (1)\<close>, run for \<open>n\<close> passes.\<close>

fun main_loop :: "nat \<Rightarrow> handlers \<Rightarrow> system \<Rightarrow> (error + system) option" where
  "main_loop 0 h s = Some (Inr s)"
| "main_loop (Suc n) h s =
     (case main_loop_body h s of
        None \<Rightarrow> None
      | Some (Inl e) \<Rightarrow> Some (Inl e)
      | Some (Inr s') \<Rightarrow> main_loop n h s')"

section \<open>States used in the examples\<close>

text \<open>
  The state after reset: every static variable is zero, the arrays have their declared
  sizes, no interrupt is enabled. The masks of app.h are given distinct bits next to
  \<^verbatim>\<open>SI7021_READ_EVT\<close>; these values serve the examples only.
\<close>

definition example_app_h :: app_h where
  "example_app_h =
     \<lparr>LETIMER0_COMP0_EVT = 0x01, LETIMER0_COMP1_EVT = 0x02, LETIMER0_UF_EVT = 0x04,
      BOOT_UP_EVT = 0x10, LEUART_TX_EVT = 0x20, LEUART_RX_EVT = 0x40\<rparr>"

definition reset_state :: system where
  "reset_state =
     \<lparr>app = example_app_h,
      event_scheduled = 0,
      posted = [],
      blocks = (\<lambda>EM. 0),
      payload = \<lparr>device_address = 0, current_state = initialize, bytes = 0, data = 0,
                 cmd = 0\<rparr>,
      i2c_written = [],
      lePayload = \<lparr>state = begin_tx, count = 0, str = replicate 80 0, index = 0,
                   txbusy = False, rx_state = idle, received_str = replicate 80 0,
                   rx_count = 0, startf = 0, sigf = 0, rxbusy = False\<rparr>,
      tx_done_evt = 0,
      rx_done_evt = 0,
      LEUART0 = \<lparr>IEN = {}, IF_latched = {}, RXBLOCK = False, SFUBRX = False,
                 STARTFRAME = 0, SIGFRAME = 0, rx_buffer = [], tx_buffer_empty = True,
                 TXDATA_written = []\<rparr>,
      ble_cbuf = \<lparr>cbuf = replicate 64 0, size_mask = 0, size_c = 0, read_ptr = 0,
                  write_ptr = 0\<rparr>,
      result_str = replicate 64 0\<rparr>"

text \<open>
  The state in which \<^verbatim>\<open>app_peripheral_setup\<close> leaves the queue and the link:
  \<^verbatim>\<open>ble_circ_init\<close> and \<^verbatim>\<open>leuart_open\<close> have run.
\<close>

definition opened_state :: system where
  "opened_state = leuart_open (reset_state\<lparr>ble_cbuf := ble_circ_init (ble_cbuf reset_state)\<rparr>)"

text \<open>
  The three rows of \<^verbatim>\<open>test_struct.test_str\<close> as \<^verbatim>\<open>circular_buff_test\<close> fills them: 64
  bytes each, holding strings of lengths 50, 25 and 5.
\<close>

definition test_str_0 :: "u8 list" where
  "test_str_0 = map (\<lambda>i. of_nat (i + 1)) [0..<50] @ replicate 14 0"

definition test_str_1 :: "u8 list" where
  "test_str_1 = map (\<lambda>i. of_nat (i + 20)) [0..<25] @ replicate 39 0"

definition test_str_2 :: "u8 list" where
  "test_str_2 = map (\<lambda>i. of_nat (i + 35)) [0..<5] @ replicate 59 0"

text \<open>A 13-byte string, as long as the space that a 50-byte packet leaves in the queue.\<close>

definition str_13 :: "u8 list" where
  "str_13 = replicate 13 (of_char CHR ''x'')"

text \<open>A 64-byte string, as long as the whole buffer, of the byte 0x90.\<close>

definition str_64 :: "u8 list" where
  "str_64 = replicate 64 0x90"

section \<open>Reading results\<close>

text \<open>
  A call returns when it neither ends with an error nor hangs; \<open>result\<close> is the
  value it returns then.
\<close>

definition returned :: "(error + 'a) option \<Rightarrow> bool" where
  "returned r = (case r of Some (Inr x) \<Rightarrow> True | Some (Inl e) \<Rightarrow> False | None \<Rightarrow> False)"


definition result :: "(error + 'a) option \<Rightarrow> 'a" where
  "result r = projr (the r)"

text \<open>The error of a call that has ended with one.\<close>

definition failure :: "(error + 'a) option \<Rightarrow> error option" where
  "failure r = (case r of Some (Inl e) \<Rightarrow> Some e | Some (Inr x) \<Rightarrow> None | None \<Rightarrow> None)"

text \<open>Both cursors of the queue index inside \<^verbatim>\<open>cbuf[CSIZE]\<close>.\<close>

definition ptrs_ok :: "BLE_CIRCULAR_BUF \<Rightarrow> bool" where
  "ptrs_ok b = (unat (read_ptr b) < CSIZE \<and> unat (write_ptr b) < CSIZE)"

text \<open>
  The queue seen as a list of packets. \<open>ring_bytes b n\<close> are the \<open>n\<close> bytes of
  \<open>cbuf\<close> from the read index on, around the end of the array; a packet is stored as its
  length byte and its characters; \<open>holds b q\<close> says that the buffer stores the packets
  \<open>q\<close>, oldest first, between its two indices, and that the counter is the capacity less
  the bytes they take.
\<close>

definition ring_bytes :: "BLE_CIRCULAR_BUF \<Rightarrow> nat \<Rightarrow> u8 list" where
  "ring_bytes b n = map (\<lambda>i. cbuf b ! ((unat (read_ptr b) + i) mod CSIZE)) [0..<n]"

definition encode_packet :: "u8 list \<Rightarrow> u8 list" where
  "encode_packet p = of_nat (length p) # p"

definition queued_bytes :: "u8 list list \<Rightarrow> u8 list" where
  "queued_bytes q = concat (map encode_packet q)"

definition holds :: "BLE_CIRCULAR_BUF \<Rightarrow> u8 list list \<Rightarrow> bool" where
  "holds b q =
     (length (cbuf b) = CSIZE
      \<and> unat (read_ptr b) < CSIZE
      \<and> unat (write_ptr b) = (unat (read_ptr b) + length (queued_bytes q)) mod CSIZE
      \<and> unat (size_c b) + length (queued_bytes q) = CSIZE
      \<and> ring_bytes b (length (queued_bytes q)) = queued_bytes q)"

text \<open>
  \<open>off w j\<close> is how far the index \<open>j\<close> lies after \<open>w\<close>, going round; after the
  bytes \<open>cs\<close> have been written from \<open>w\<close> on, the buffer holds \<open>written w cs old j\<close>
  at \<open>j\<close>.
\<close>

definition off :: "nat \<Rightarrow> nat \<Rightarrow> nat" where
  "off w j = (if w \<le> j then j - w else j + 64 - w)"

definition written :: "nat \<Rightarrow> u8 list \<Rightarrow> u8 list \<Rightarrow> nat \<Rightarrow> u8" where
  "written w cs old j = (if off w j < length cs then cs ! off w j else old ! j)"

text \<open>What a transaction has left in the destination, and what the receiver holds.\<close>

definition i2c_data :: "error + system \<Rightarrow> u32 option" where
  "i2c_data r = (case r of Inl e \<Rightarrow> None | Inr s \<Rightarrow> Some (data (payload s)))"

definition received_message :: "(error + system) option \<Rightarrow> u8 list option" where
  "received_message r =
     (case r of
        Some (Inr s) \<Rightarrow> Some (c_string (received_str (lePayload s)))
      | Some (Inl e) \<Rightarrow> None
      | None \<Rightarrow> None)"


section \<open>More states used in the examples\<close>

text \<open>
  A two-byte bus transaction of the sensor (address 0x40, command 0xF3) up to its last
  byte; a two-byte transmission whose bytes have both gone to \<^verbatim>\<open>TXDATA\<close>; the receiver
  after the frames \<^verbatim>\<open>#ABC\<close> and after \<^verbatim>\<open>#ABC?\<close>; the queue holding the packet \<^verbatim>\<open>Hi\<close>.
\<close>

definition bus_before_stop :: system where
  "bus_before_stop =
     result (Some (i2c_transaction
                     \<lparr>init_device_address = 0x40, init_bytes = 2, init_cmd = 0xF3\<rparr>
                     [Ack, Ack, Nack, Ack, Byte 0x12, Byte 0x34] reset_state))"

definition tx_drained :: system where
  "tx_drained = result (hw_run [TX_buffer_empty]
                   (result (service (leuart_start (bytes_of ''Hi'') 2 opened_state))))"

definition rx_before_stop_marker :: system where
  "rx_before_stop_marker = result (hw_run (map RX_frame (bytes_of ''#ABC'')) opened_state)"

definition rx_posted :: system where
  "rx_posted = result (hw_run (map RX_frame (bytes_of ''#ABC?'')) opened_state)"


text \<open>Handlers none of which returns: a pass of the loop that returns has called none.\<close>

definition no_handlers :: handlers where
  "no_handlers =
     \<lparr>enter_sleep = (\<lambda>s. None),
      scheduled_letimer0_uf_evt = (\<lambda>s. None),
      scheduled_letimer0_comp0_evt = (\<lambda>s. None),
      scheduled_letimer0_comp1_evt = (\<lambda>s. None),
      Si7021_temp_done_evt = (\<lambda>s. None),
      scheduled_boot_up_evt = (\<lambda>s. None),
      scheduled_leuart0_tx_done_evt = (\<lambda>s. None)\<rparr>"

section \<open>Properties of the event scheduler\<close>

text \<open>
  Claim C5. For every pending-event word and every event mask \<open>e\<close>: after
  \<open>add e\<close> the bits of \<open>e\<close> are set in what \<open>get_scheduled_events\<close> returns; after a
  following \<open>remove e\<close> they are clear; adding \<open>e\<close> twice gives the same pending word as
  adding it once; and removing \<open>e\<close> from a word in which no bit of \<open>e\<close> is set leaves
  the word unchanged.
\<close>

theorem C5_scheduler_add_remove_peek:
  "get_scheduled_events (add_scheduled_event e s) AND e = e
   \<and> get_scheduled_events (remove_scheduled_event e (add_scheduled_event e s)) AND e = 0
   \<and> add_scheduled_event e (add_scheduled_event e s) = add_scheduled_event e s
   \<and> (get_scheduled_events s AND e = 0 \<longrightarrow> remove_scheduled_event e s = s)"
proof -
  have a: "(s OR e) AND e = e"
    by (rule bit_eqI) (auto simp: bit_simps)
  have b: "((s OR e) AND NOT e) AND e = 0"
    by (rule bit_eqI) (auto simp: bit_simps)
  have c: "(s OR e) OR e = s OR e"
    by (rule bit_eqI) (auto simp: bit_simps)
  have d: "s AND e = 0 \<Longrightarrow> s AND NOT e = s"
  proof (rule bit_eqI)
    fix n
    assume z: "s AND e = 0"
    have "\<not> (bit s n \<and> bit e n)"
    proof
      assume "bit s n \<and> bit e n"
      then have "bit (s AND e) n" by (simp add: bit_simps)
      with z show False by simp
    qed
    then show "bit (s AND NOT e) n = bit s n"
      by (auto simp: bit_simps dest: bit_imp_possible_bit)
  qed
  show ?thesis
    using a b c d
    by (simp add: add_scheduled_event_def remove_scheduled_event_def get_scheduled_events_def)
qed

theorem C5_scheduler_add_remove_peek_witness:
  "get_scheduled_events (add_scheduled_event 8 (0x21::u32)) AND 8 = 8
   \<and> get_scheduled_events (remove_scheduled_event 8 (add_scheduled_event 8 (0x21::u32))) AND 8 = 0
   \<and> add_scheduled_event 8 (add_scheduled_event 8 (0x21::u32)) = add_scheduled_event 8 0x21
   \<and> get_scheduled_events (0x21::u32) AND 8 = 0
   \<and> remove_scheduled_event 8 (0x21::u32) = 0x21"
proof -
  have h: "get_scheduled_events (0x21::u32) AND 8 = 0"
    by (simp add: get_scheduled_events_def)
  show ?thesis
    using C5_scheduler_add_remove_peek [of 8 "0x21"] h by blast
qed

section \<open>General facts\<close>


lemma failure_eq: "failure r = Some e \<Longrightarrow> r = Some (Inl e)"
  by (auto simp: failure_def split: option.splits sum.splits)

lemma sum_returned: "returned (Some r) \<Longrightarrow> r = Inr (result (Some r))"
  by (auto simp: returned_def result_def split: sum.splits)


section \<open>Properties of the circular buffer\<close>

lemma mod64_lt: "unat ((x :: u32) mod 64) < 64"
proof -
  have "x mod 64 < 64" by (rule word_mod_less_divisor) simp
  then show ?thesis by (simp add: word_less_nat_alt)
qed

lemma push_loop_ptrs:
  "ptrs_ok b \<Longrightarrow> ptrs_ok (push_loop cs b)"
  by (induction cs arbitrary: b) (simp_all add: ptrs_ok_def update_circ_wrtindex_def mod64_lt CSIZE_def)

lemma ble_circ_push_ptrs:
  "ptrs_ok b \<Longrightarrow> ble_circ_push string b = Inr b' \<Longrightarrow> ptrs_ok b'"
proof -
  assume ok: "ptrs_ok b" and p: "ble_circ_push string b = Inr b'"
  let ?b1 = "update_circ_wrtindex (b\<lparr>cbuf := (cbuf b)[unat (write_ptr b) := of_nat (strlen string)]\<rparr>) 1"
  have "ptrs_ok ?b1" using ok by (simp add: ptrs_ok_def update_circ_wrtindex_def mod64_lt CSIZE_def)
  then have "ptrs_ok (push_loop (take (strlen string) string) ?b1)" by (rule push_loop_ptrs)
  with p show ?thesis
    by (auto simp: ble_circ_push_def Let_def ptrs_ok_def split: if_splits)
qed

lemma pop_loop_ptrs:
  "ptrs_ok b \<Longrightarrow> ptrs_ok (snd (pop_loop n b))"
proof (induction n arbitrary: b)
  case 0
  then show ?case by simp
next
  case (Suc n)
  have "ptrs_ok (update_circ_readindex b 1)"
    using Suc.prems by (simp add: ptrs_ok_def update_circ_readindex_def mod64_lt CSIZE_def)
  then have "ptrs_ok (snd (pop_loop n (update_circ_readindex b 1)))"
    by (rule Suc.IH)
  then show ?case
    by (auto simp: Let_def split: prod.splits)
qed

lemma dispatch_keeps:
  assumes "\<And>f h s s'. (f, h) \<in> set hs \<Longrightarrow> h s = Inr s' \<Longrightarrow> P s' = P s"
  shows "dispatch hs F s = Inr s' \<Longrightarrow> P s' = P s"
  using assms
proof (induction hs arbitrary: s)
  case Nil then show ?case by simp
next
  case (Cons a hs)
  obtain f h where a: "a = (f, h)" by (cases a)
  show ?case
  proof (cases "f \<in> F")
    case True
    with Cons.prems(1) a obtain s1 where h: "h s = Inr s1" and d: "dispatch hs F s1 = Inr s'"
      by (auto split: sum.splits)
    have "P s1 = P s" using Cons.prems(2)[of f h s s1] a h by simp
    moreover have "P s' = P s1"
    proof (rule Cons.IH[OF d])
      fix f' h' t t'
      assume "(f', h') \<in> set hs" and "h' t = Inr t'"
      then show "P t' = P t" using Cons.prems(2)[of f' h' t t'] by simp
    qed
    ultimately show ?thesis by simp
  next
    case False
    with Cons.prems(1) a have d: "dispatch hs F s = Inr s'" by simp
    show ?thesis
    proof (rule Cons.IH[OF d])
      fix f' h' t t'
      assume "(f', h') \<in> set hs" and "h' t = Inr t'"
      then show "P t' = P t" using Cons.prems(2)[of f' h' t t'] by simp
    qed
  qed
qed

lemma service_rel_aux:
  assumes refl: "\<And>s. R s s"
    and trans: "\<And>a b c. R a b \<Longrightarrow> R b c \<Longrightarrow> R a c"
    and step: "\<And>s s1. irq_pending s \<Longrightarrow> LEUART0_IRQHandler s = Inr s1 \<Longrightarrow> R s s1"
  shows "service s = Some r \<Longrightarrow> (\<forall>t. r = Inr t \<longrightarrow> R s t \<and> \<not> irq_pending t)"
proof (induction s r rule: service.raw_induct[rotated, consumes 1])
  case (1 f s r)
  show ?case
  proof (cases "irq_pending s")
    case True
    show ?thesis
    proof (cases "LEUART0_IRQHandler s")
      case (Inl e)
      with True 1(2) show ?thesis by auto
    next
      case (Inr s1)
      with True 1(2) have r: "f s1 = Some r" by simp
      have "R s s1" using True Inr by (rule step)
      with 1(1)[OF r] show ?thesis using trans by blast
    qed
  next
    case False
    with 1(2) refl show ?thesis by auto
  qed
qed

lemma service_rel:
  assumes run: "service s = Some (Inr s')"
    and refl: "\<And>s. R s s"
    and trans: "\<And>a b c. R a b \<Longrightarrow> R b c \<Longrightarrow> R a c"
    and step: "\<And>s s1. irq_pending s \<Longrightarrow> LEUART0_IRQHandler s = Inr s1 \<Longrightarrow> R s s1"
  shows "R s s' \<and> \<not> irq_pending s'"
  using service_rel_aux[of R s "Inr s'", OF refl trans step run] by simp

lemma irq_keeps_ble_cbuf:
  "LEUART0_IRQHandler s = Inr s' \<Longrightarrow> ble_cbuf s' = ble_cbuf s"
proof -
  assume a: "LEUART0_IRQHandler s = Inr s'"
  let ?s0 = "s\<lparr>LEUART0 := (LEUART0 s)\<lparr>IF_latched := IF_latched (LEUART0 s) - (IF_reg (LEUART0 s) \<inter> IEN (LEUART0 s))\<rparr>\<rparr>"
  have "ble_cbuf s' = ble_cbuf ?s0"
    using a unfolding LEUART0_IRQHandler_def Let_def
    by (rule dispatch_keeps[rotated])
       (auto simp: TXBL_Interrupt_def TXC_Interrupt_def STARTF_Interrupt_def RXDATAV_Interrupt_def
          SIGF_Interrupt_def Let_def post_event_def sleep_unblock_mode_def
          split: leuart_tx_states.splits leuart_rx_states.splits if_splits sum.splits prod.splits)
  then show ?thesis by simp
qed

lemma service_keeps_ble_cbuf:
  "service s = Some (Inr s') \<Longrightarrow> ble_cbuf s' = ble_cbuf s"
  using service_rel[where R = "\<lambda>s s'. ble_cbuf s' = ble_cbuf s" and s = s and s' = s']
  by (simp add: irq_keeps_ble_cbuf)

lemma hw_step_keeps_ble_cbuf:
  "hw_step ev s = Some (Inr s') \<Longrightarrow> ble_cbuf s' = ble_cbuf s"
  unfolding hw_step_def by (drule service_keeps_ble_cbuf) simp

lemma wait_keeps_ble_cbuf:
  "wait_while_tx_busy evs s = Some (Inr s') \<Longrightarrow> ble_cbuf s' = ble_cbuf s \<and> \<not> leuart_tx_busy s'"
proof (induction evs arbitrary: s)
  case Nil
  then show ?case by (simp split: if_splits)
next
  case (Cons ev evs)
  show ?case
  proof (cases "leuart_tx_busy s")
    case True
    with Cons.prems obtain s1 where h: "hw_step ev s = Some (Inr s1)"
      and w: "wait_while_tx_busy evs s1 = Some (Inr s')"
      by (auto split: option.splits sum.splits)
    from Cons.IH[OF w] hw_step_keeps_ble_cbuf[OF h] show ?thesis by simp
  next
    case False
    with Cons.prems show ?thesis by simp
  qed
qed

lemma send_and_wait_keeps_ble_cbuf:
  "send_and_wait string_array len evs s = Some (Inr s') \<Longrightarrow> ble_cbuf s' = ble_cbuf s \<and> \<not> leuart_tx_busy s'"
proof -
  assume a: "send_and_wait string_array len evs s = Some (Inr s')"
  then obtain s1 where sv: "service (leuart_start string_array (of_nat len) s) = Some (Inr s1)"
    and w: "wait_while_tx_busy evs s1 = Some (Inr s')"
    by (auto simp: send_and_wait_def split: option.splits sum.splits)
  have "ble_cbuf s1 = ble_cbuf s"
    using service_keeps_ble_cbuf[OF sv] by (simp add: leuart_start_def Let_def sleep_block_mode_def)
  with wait_keeps_ble_cbuf[OF w] show ?thesis by simp
qed

lemma ble_circ_pop_test_ptrs:
  assumes ok: "ptrs_ok (ble_cbuf s)" and p: "ble_circ_pop True tx_idle evs s = Some (Inr (r, s'))"
  shows "ptrs_ok (ble_cbuf s')"
proof (cases "\<not> tx_idle \<or> size_c (ble_cbuf s) = of_nat CSIZE")
  case True
  then have "ble_circ_pop True tx_idle evs s = Some (Inr (True, s))"
    by (auto simp: ble_circ_pop_def)
  with p ok show ?thesis by simp
next
  case False
  define len where "len = unat (cbuf (ble_cbuf s) ! unat (read_ptr (ble_cbuf s)))"
  define b1 where "b1 = snd (pop_loop len (update_circ_readindex (ble_cbuf s) 1))"
  have "ptrs_ok (update_circ_readindex (ble_cbuf s) 1)"
    using ok by (simp add: ptrs_ok_def update_circ_readindex_def mod64_lt CSIZE_def)
  then have b1: "ptrs_ok b1" unfolding b1_def by (rule pop_loop_ptrs)
  with False p show ?thesis
    by (auto simp: ble_circ_pop_def Let_def ptrs_ok_def b1_def len_def
             split: prod.splits if_splits)
qed

text \<open>
  Claim C10 at an input where the code departs from it. A string of 64 bytes 0x90 is
  pushed into the initialised queue: the counter is 64, the test \<^verbatim>\<open>size < length\<close> lets
  it pass, and its last byte is stored at index 0, over the length byte just written.
  Both indices are below 64 then. The pop in test mode that follows reads 0x90 = 144 as
  the length of the packet and stores 144 bytes into \<^verbatim>\<open>result_str[64]\<close>: 80 of them
  land past the end of the array, in the memory of the other static variables of ble.c,
  the indices of the queue among them.
\<close>

theorem C10_pop_stores_past_result_str:
  "strlen str_64 = 64
   \<and> size_c (ble_cbuf opened_state) = 64
   \<and> returned (queue_run [Push str_64] opened_state)
   \<and> read_ptr (ble_cbuf (snd (result (queue_run [Push str_64] opened_state)))) = 0
   \<and> write_ptr (ble_cbuf (snd (result (queue_run [Push str_64] opened_state)))) = 1
   \<and> unat (cbuf (ble_cbuf (snd (result (queue_run [Push str_64] opened_state)))) ! 0) = 144
   \<and> CSIZE < 144
   \<and> queue_run [Push str_64, Pop True True []] opened_state = Some (Inl OutOfBounds)"
proof -
  have a: "strlen str_64 = 64"
    by code_simp
  have b: "size_c (ble_cbuf opened_state) = 64"
    by code_simp
  have c: "returned (queue_run [Push str_64] opened_state)"
    by code_simp
  have d: "read_ptr (ble_cbuf (snd (result (queue_run [Push str_64] opened_state)))) = 0"
    by code_simp
  have e: "write_ptr (ble_cbuf (snd (result (queue_run [Push str_64] opened_state)))) = 1"
    by code_simp
  have f: "unat (cbuf (ble_cbuf (snd (result (queue_run [Push str_64] opened_state)))) ! 0) = 144"
    by code_simp
  have g: "CSIZE < 144"
    by (simp add: CSIZE_def)
  have "failure (queue_run [Push str_64, Pop True True []] opened_state) = Some OutOfBounds"
    by code_simp
  then have h: "queue_run [Push str_64, Pop True True []] opened_state = Some (Inl OutOfBounds)"
    by (rule failure_eq)
  from a b c d e f g h show ?thesis by blast
qed

subsection \<open>The queue as a list of packets\<close>

lemma mod64_if: "n < 128 \<Longrightarrow> n mod 64 = (if n < 64 then n else n - (64::nat))"
  by (simp add: le_mod_geq)

lemma unat_step: "unat (x::u32) < 64 \<Longrightarrow> unat ((x + 1) mod 64) = (unat x + 1) mod 64"
proof -
  assume a: "unat x < 64"
  have "unat (x + 1) = unat x + 1"
    using a by (simp add: unat_word_ariths)
  then show ?thesis by (simp add: unat_mod)
qed

lemma push_loop_fields:
  "read_ptr (push_loop cs b) = read_ptr b \<and> size_c (push_loop cs b) = size_c b
   \<and> size_mask (push_loop cs b) = size_mask b \<and> length (cbuf (push_loop cs b)) = length (cbuf b)"
  by (induction cs arbitrary: b) (simp_all add: update_circ_wrtindex_def)

lemma push_loop_wp:
  "unat (write_ptr b) < 64 \<Longrightarrow>
   unat (write_ptr (push_loop cs b)) = (unat (write_ptr b) + length cs) mod 64"
proof (induction cs arbitrary: b)
  case Nil
  then show ?case by simp
next
  case (Cons c cs)
  let ?b1 = "update_circ_wrtindex (b\<lparr>cbuf := (cbuf b)[unat (write_ptr b) := c]\<rparr>) 1"
  have w1: "unat (write_ptr ?b1) = (unat (write_ptr b) + 1) mod 64"
    using Cons.prems by (simp add: update_circ_wrtindex_def unat_step)
  then have "unat (write_ptr ?b1) < 64" by simp
  from Cons.IH[OF this] w1 show ?case
    by (simp add: mod_add_left_eq)
qed

lemma push_loop_cbuf:
  "unat (write_ptr b) < 64 \<Longrightarrow> length (cbuf b) = 64 \<Longrightarrow> length cs \<le> 64 \<Longrightarrow> j < 64 \<Longrightarrow>
   cbuf (push_loop cs b) ! j = written (unat (write_ptr b)) cs (cbuf b) j"
proof (induction cs arbitrary: b)
  case Nil
  then show ?case by (simp add: written_def)
next
  case (Cons c cs)
  let ?w = "unat (write_ptr b)"
  let ?b1 = "update_circ_wrtindex (b\<lparr>cbuf := (cbuf b)[?w := c]\<rparr>) 1"
  have w1: "unat (write_ptr ?b1) = (if ?w = 63 then 0 else ?w + 1)"
    using Cons.prems by (simp add: update_circ_wrtindex_def unat_step mod64_if)
  have l1: "length (cbuf ?b1) = 64" using Cons.prems by (simp add: update_circ_wrtindex_def)
  have c1: "cbuf ?b1 = (cbuf b)[?w := c]" by (simp add: update_circ_wrtindex_def)
  have w1lt: "unat (write_ptr ?b1) < 64" using w1 Cons.prems(1) by (simp split: if_splits)
  have lcs: "length cs \<le> 64" using Cons.prems(3) by simp
  have "cbuf (push_loop cs ?b1) ! j = written (unat (write_ptr ?b1)) cs (cbuf ?b1) j"
    using w1lt l1 lcs Cons.prems(4) by (rule Cons.IH)
  also have "\<dots> = written ?w (c # cs) (cbuf b) j"
  proof (cases "j = ?w")
    case True
    have "off (unat (write_ptr ?b1)) ?w = 63"
      using Cons.prems(1) by (simp only: w1) (simp add: off_def)
    moreover have "length cs \<le> 63" using Cons.prems(3) by simp
    moreover have "off ?w ?w = 0" by (simp add: off_def)
    ultimately show ?thesis
      using True Cons.prems(1,2) by (simp add: written_def c1)
  next
    case False
    have k: "off (unat (write_ptr ?b1)) j = off ?w j - 1" and kpos: "0 < off ?w j"
      using False Cons.prems(1,4) by (simp_all only: w1) (auto simp: off_def)
    show ?thesis
      using False kpos Cons.prems(1,2,4)
      by (auto simp: written_def c1 k nth_Cons')
  qed
  finally show ?case by simp
qed

lemma pop_loop_spec:
  "unat (read_ptr b) < 64 \<Longrightarrow>
   fst (pop_loop n b) = map (\<lambda>i. cbuf b ! ((unat (read_ptr b) + i) mod 64)) [0..<n]
   \<and> cbuf (snd (pop_loop n b)) = cbuf b
   \<and> write_ptr (snd (pop_loop n b)) = write_ptr b
   \<and> size_c (snd (pop_loop n b)) = size_c b
   \<and> size_mask (snd (pop_loop n b)) = size_mask b
   \<and> unat (read_ptr (snd (pop_loop n b))) = (unat (read_ptr b) + n) mod 64"
proof (induction n arbitrary: b)
  case 0
  then show ?case by simp
next
  case (Suc n)
  let ?b1 = "update_circ_readindex b 1"
  have r1: "unat (read_ptr ?b1) = (unat (read_ptr b) + 1) mod 64"
    using Suc.prems by (simp add: update_circ_readindex_def unat_step)
  then have lt: "unat (read_ptr ?b1) < 64" by simp
  have f1: "cbuf ?b1 = cbuf b" "write_ptr ?b1 = write_ptr b" "size_c ?b1 = size_c b"
    "size_mask ?b1 = size_mask b"
    by (simp_all add: update_circ_readindex_def)
  have idx: "\<And>i. ((unat (read_ptr b) + 1) mod 64 + i) mod 64 = (unat (read_ptr b) + Suc i) mod 64"
    by (simp add: mod_add_left_eq)
  have up: "[0..<Suc n] = 0 # map Suc [0..<n]"
    by (simp add: upt_conv_Cons map_Suc_upt del: upt_Suc)
  obtain cs b' where pl: "pop_loop n ?b1 = (cs, b')" by (cases "pop_loop n ?b1")
  from Suc.IH[OF lt] pl r1 f1 idx
  have cs: "cs = map (\<lambda>i. cbuf b ! ((unat (read_ptr b) + Suc i) mod 64)) [0..<n]"
    and b': "cbuf b' = cbuf b" "write_ptr b' = write_ptr b" "size_c b' = size_c b"
       "size_mask b' = size_mask b" "unat (read_ptr b') = (unat (read_ptr b) + Suc n) mod 64"
    by simp_all
  have "pop_loop (Suc n) b = (cbuf b ! unat (read_ptr b) # cs, b')"
    using pl by (simp add: Let_def)
  moreover have "map (\<lambda>i. cbuf b ! ((unat (read_ptr b) + i) mod 64)) [0..<Suc n]
                 = cbuf b ! unat (read_ptr b) # cs"
    using Suc.prems by (simp only: up cs) (simp add: comp_def)
  ultimately show ?case using b' by simp
qed

lemma off_ring:
  "rp < 64 \<Longrightarrow> u \<le> 64 \<Longrightarrow> i < 64 \<Longrightarrow>
   off ((rp + u) mod 64) ((rp + i) mod 64) = (if u \<le> i then i - u else i + 64 - u)"
proof -
  assume a: "rp < 64" "u \<le> 64" "i < 64"
  have 1: "(rp + u) mod 64 = (if rp + u < 64 then rp + u else rp + u - 64)"
    using a by (intro mod64_if) simp
  have 2: "(rp + i) mod 64 = (if rp + i < 64 then rp + i else rp + i - 64)"
    using a by (intro mod64_if) simp
  show ?thesis
    unfolding 1 2 off_def using a by auto
qed

lemma ucast_round: "unat (x::u32) < 256 \<Longrightarrow> (ucast (ucast x :: u8) :: u32) = x"
proof -
  assume a: "unat x < 256"
  have "unat (ucast (ucast x :: u8) :: u32) = unat x"
    using a by (simp add: unsigned_ucast_eq unsigned_take_bit_eq take_bit_nat_eq_self)
  then show ?thesis by (simp add: word_unat_eq_iff)
qed

lemma unat_of_nat_u32: "n < 256 \<Longrightarrow> unat (of_nat n :: u32) = n"
  by (simp add: unat_of_nat)

lemma unat_of_nat_u8: "n < 256 \<Longrightarrow> unat (of_nat n :: u8) = n"
  by (simp add: unat_of_nat)

lemma counter_down:
  "unat (x::u32) \<le> 64 \<Longrightarrow> n \<le> unat x \<Longrightarrow>
   unat ((ucast (ucast x :: u8) :: u32) - of_nat n) = unat x - n"
proof -
  assume a: "unat x \<le> 64" and b: "n \<le> unat x"
  have r: "(ucast (ucast x :: u8) :: u32) = x" using a by (intro ucast_round) simp
  have n: "unat (of_nat n :: u32) = n" using a b by (intro unat_of_nat_u32) simp
  have "of_nat n \<le> x" using n b by (simp add: word_le_nat_alt)
  then have "unat (x - of_nat n) = unat x - unat (of_nat n :: u32)" by (rule unat_sub)
  with r n show ?thesis by simp
qed

lemma counter_up:
  "unat (x::u32) + n + 1 \<le> 64 \<Longrightarrow>
   unat ((ucast (ucast x :: u8) :: u32) + of_nat n + 1) = unat x + n + 1"
proof -
  assume a: "unat x + n + 1 \<le> 64"
  have r: "(ucast (ucast x :: u8) :: u32) = x" using a by (intro ucast_round) simp
  have "unat (x + of_nat n + 1) = (unat x + n + 1) mod 2 ^ 32"
    using a by (simp add: unat_word_ariths unat_of_nat mod_simps)
  also have "\<dots> = unat x + n + 1" using a by simp
  finally show ?thesis using r by simp
qed

lemma strlen_no_zero: "0 \<notin> set p \<Longrightarrow> strlen p = length p"
  by (induction p) (auto simp: strlen_def)

lemma ring_bytes_nth:
  "i < n \<Longrightarrow> ring_bytes b n ! i = cbuf b ! ((unat (read_ptr b) + i) mod 64)"
  by (simp add: ring_bytes_def CSIZE_def)

lemma ring_bytes_length: "length (ring_bytes b n) = n"
  by (simp add: ring_bytes_def)

lemma push_holds:
  assumes h: "holds b q" and nz: "0 \<notin> set p" and fit: "length p + 1 \<le> unat (size_c b)"
  shows "\<exists>b'. ble_circ_push p b = Inr b' \<and> holds b' (q @ [p])"
proof -
  define u where "u = length (queued_bytes q)"
  define rp where "rp = unat (read_ptr b)"
  define e where "e = encode_packet p"
  from h have lc: "length (cbuf b) = 64" and rplt: "rp < 64"
    and wp: "unat (write_ptr b) = (rp + u) mod 64" and sz: "unat (size_c b) + u = 64"
    and rb: "ring_bytes b u = queued_bytes q"
    by (simp_all add: holds_def CSIZE_def u_def rp_def)
  have le: "length e = length p + 1" by (simp add: e_def encode_packet_def)
  have room: "u + length e \<le> 64" using fit sz le by simp
  have sl: "strlen p = length p"
    using nz by (rule strlen_no_zero)
  have "unat (of_nat (length p) :: u32) = length p"
    using room le by (intro unat_of_nat_u32) simp
  then have guard: "\<not> size_c b < of_nat (length p)"
    using fit by (simp add: word_less_nat_alt)
  define b2 where "b2 = push_loop e b"
  define b' where "b' = b2\<lparr>size_c := ucast (ble_circ_space b2) - of_nat (length p + 1)\<rparr>"
  have push: "ble_circ_push p b = Inr b'"
    using guard by (simp add: ble_circ_push_def Let_def sl b2_def b'_def e_def encode_packet_def)
  have f: "read_ptr b2 = read_ptr b" "size_c b2 = size_c b" "length (cbuf b2) = 64"
    using push_loop_fields[of e b] lc by (simp_all add: b2_def)
  have wlt: "unat (write_ptr b) < 64" using wp by simp
  have w2: "unat (write_ptr b2) = (rp + (u + length e)) mod 64"
    using push_loop_wp[OF wlt, of e] wp by (simp add: b2_def mod_add_left_eq add.assoc)
  have c2: "\<And>j. j < 64 \<Longrightarrow> cbuf b2 ! j = written ((rp + u) mod 64) e (cbuf b) j"
    using push_loop_cbuf[OF wlt lc, of e] room wp by (simp add: b2_def)
  have size': "unat (size_c b') = unat (size_c b) - (length p + 1)"
    using counter_down[of "size_c b" "length p + 1"] fit sz
    by (simp add: b'_def ble_circ_space_def f)
  have qb: "queued_bytes (q @ [p]) = queued_bytes q @ e"
    by (simp add: queued_bytes_def e_def)
  have ring: "ring_bytes b' (u + length e) = queued_bytes q @ e"
  proof (rule nth_equalityI)
    show "length (ring_bytes b' (u + length e)) = length (queued_bytes q @ e)"
      by (simp add: ring_bytes_length u_def)
  next
    fix i assume "i < length (ring_bytes b' (u + length e))"
    then have i: "i < u + length e" by (simp add: ring_bytes_length)
    then have i64: "i < 64" using room by simp
    have ule: "u \<le> 64" using room by simp
    let ?pos = "(rp + i) mod 64"
    have o: "off ((rp + u) mod 64) ?pos = (if u \<le> i then i - u else i + 64 - u)"
      using rplt ule i64 by (rule off_ring)
    have "ring_bytes b' (u + length e) ! i = cbuf b2 ! ?pos"
      using i by (simp add: ring_bytes_nth b'_def f rp_def)
    also have "\<dots> = written ((rp + u) mod 64) e (cbuf b) ?pos"
      by (rule c2) simp
    also have "\<dots> = (queued_bytes q @ e) ! i"
    proof (cases "i < u")
      case True
      then have "\<not> off ((rp + u) mod 64) ?pos < length e"
        using o room by simp
      then have "written ((rp + u) mod 64) e (cbuf b) ?pos = cbuf b ! ?pos"
        by (simp add: written_def)
      also have "\<dots> = ring_bytes b u ! i"
        using True by (simp add: ring_bytes_nth rp_def)
      also have "\<dots> = (queued_bytes q @ e) ! i"
        using True by (simp add: rb nth_append u_def [symmetric])
      finally show ?thesis .
    next
      case False
      then have "off ((rp + u) mod 64) ?pos = i - u" "i - u < length e"
        using o i by simp_all
      then have "written ((rp + u) mod 64) e (cbuf b) ?pos = e ! (i - u)"
        by (simp add: written_def)
      also have "\<dots> = (queued_bytes q @ e) ! i"
        using False by (simp add: nth_append u_def [symmetric])
      finally show ?thesis .
    qed
    finally show "ring_bytes b' (u + length e) ! i = (queued_bytes q @ e) ! i" .
  qed
  have "holds b' (q @ [p])"
    unfolding holds_def qb
    using f w2 size' ring sz le fit rplt
    by (simp add: CSIZE_def b'_def u_def rp_def)
  with push show ?thesis by blast
qed

lemma pop_packet:
  assumes h: "holds b (p # q)"
  defines "len \<equiv> unat (cbuf b ! unat (read_ptr b))"
  defines "r \<equiv> pop_loop len (update_circ_readindex b 1)"
  shows "size_c b \<noteq> of_nat CSIZE"
    and "len = length p"
    and "fst r = p"
    and "holds ((snd r)\<lparr>size_c := ucast (ble_circ_space (snd r)) + of_nat len + 1\<rparr>) q"
proof -
  define u where "u = length (queued_bytes q)"
  define rp where "rp = unat (read_ptr b)"
  have qb: "queued_bytes (p # q) = of_nat (length p) # p @ queued_bytes q"
    by (simp add: queued_bytes_def encode_packet_def)
  from h have lc: "length (cbuf b) = 64" and rplt: "rp < 64"
    and wp: "unat (write_ptr b) = (rp + (length p + 1 + u)) mod 64"
    and sz: "unat (size_c b) + (length p + 1 + u) = 64"
    and rb: "ring_bytes b (length p + 1 + u) = of_nat (length p) # p @ queued_bytes q"
    by (simp_all add: holds_def CSIZE_def u_def rp_def qb add.commute add.left_commute)
  have nth: "\<And>i. i < length p + 1 + u \<Longrightarrow>
               cbuf b ! ((rp + i) mod 64) = (of_nat (length p) # p @ queued_bytes q) ! i"
    using rb ring_bytes_nth[of _ "length p + 1 + u" b] by (simp add: rp_def)
  show ne: "size_c b \<noteq> of_nat CSIZE"
  proof
    assume "size_c b = of_nat CSIZE"
    then have "unat (size_c b) = 64" by (simp add: CSIZE_def)
    with sz show False by simp
  qed
  have "cbuf b ! rp = of_nat (length p)"
    using nth[of 0] rplt by simp
  moreover have "unat (of_nat (length p) :: u8) = length p"
    using sz by (intro unat_of_nat_u8) simp
  ultimately show len: "len = length p"
    by (simp add: len_def rp_def)
  let ?b1 = "update_circ_readindex b 1"
  have r1: "unat (read_ptr ?b1) = (rp + 1) mod 64"
    using rplt by (simp add: update_circ_readindex_def unat_step rp_def)
  then have lt: "unat (read_ptr ?b1) < 64" by simp
  have c1: "cbuf ?b1 = cbuf b" "write_ptr ?b1 = write_ptr b" "size_c ?b1 = size_c b"
    by (simp_all add: update_circ_readindex_def)
  note spec = pop_loop_spec[OF lt, of len, folded r_def]
  have idx: "\<And>i. ((rp + 1) mod 64 + i) mod 64 = (rp + Suc i) mod 64"
    by (simp add: mod_add_left_eq)
  show chars: "fst r = p"
  proof (rule nth_equalityI)
    show "length (fst r) = length p" using spec len by simp
  next
    fix i assume "i < length (fst r)"
    then have i: "i < length p" using spec len by simp
    have "fst r ! i = cbuf b ! ((rp + Suc i) mod 64)"
      using spec i len by (simp add: r1 c1 mod_simps)
    also have "\<dots> = (of_nat (length p) # p @ queued_bytes q) ! Suc i"
      using i by (intro nth) simp
    also have "\<dots> = p ! i" using i by (simp add: nth_append)
    finally show "fst r ! i = p ! i" .
  qed
  let ?b' = "(snd r)\<lparr>size_c := ucast (ble_circ_space (snd r)) + of_nat len + 1\<rparr>"
  have f: "cbuf (snd r) = cbuf b" "write_ptr (snd r) = write_ptr b" "size_c (snd r) = size_c b"
    using spec by (simp_all add: c1)
  have rp': "unat (read_ptr (snd r)) = (rp + (length p + 1)) mod 64"
    using spec by (simp add: r1 len mod_simps add.commute add.left_commute)
  have size': "unat (size_c ?b') = unat (size_c b) + length p + 1"
    using counter_up[of "size_c b" "length p"] sz by (simp add: ble_circ_space_def f len)
  have wp': "unat (write_ptr ?b') = (unat (read_ptr ?b') + u) mod 64"
    using wp by (simp add: f rp' mod_simps add.assoc)
  have ring: "ring_bytes ?b' u = queued_bytes q"
  proof (rule nth_equalityI)
    show "length (ring_bytes ?b' u) = length (queued_bytes q)"
      by (simp add: ring_bytes_length u_def)
  next
    fix i assume "i < length (ring_bytes ?b' u)"
    then have i: "i < u" by (simp add: ring_bytes_length)
    have "ring_bytes ?b' u ! i = cbuf b ! (((rp + (length p + 1)) mod 64 + i) mod 64)"
      using i by (simp add: ring_bytes_nth f rp')
    also have "\<dots> = cbuf b ! ((rp + (length p + 1 + i)) mod 64)"
      by (simp add: mod_simps add.assoc)
    also have "\<dots> = (of_nat (length p) # p @ queued_bytes q) ! (length p + 1 + i)"
      using i by (intro nth) simp
    also have "\<dots> = queued_bytes q ! i"
      by (simp add: nth_append)
    finally show "ring_bytes ?b' u ! i = queued_bytes q ! i" .
  qed
  show "holds ?b' q"
    unfolding holds_def
    using lc f rp' size' wp' ring sz
    by (simp add: CSIZE_def u_def)
qed

lemma c_string_no_zero: "0 \<notin> set (c_string string)"
  unfolding c_string_def by (induction string) auto

lemma length_c_string: "length (c_string string) = strlen string"
  by (simp add: c_string_def strlen_def)

lemma take_strlen: "take (strlen string) string = c_string string"
  unfolding c_string_def strlen_def by (induction string) auto

lemma push_c_string: "ble_circ_push string b = ble_circ_push (c_string string) b"
proof -
  have a: "strlen (c_string string) = strlen string"
    using strlen_no_zero[OF c_string_no_zero, of string] by (simp add: length_c_string)
  have b: "take (strlen string) string = c_string string"
    by (rule take_strlen)
  have c: "take (strlen string) (c_string string) = c_string string"
    by (simp add: length_c_string [symmetric])
  show ?thesis
    by (simp only: ble_circ_push_def Let_def a b c)
qed

lemma push_string_holds:
  assumes "holds b q" and "strlen string + 1 \<le> unat (size_c b)"
  shows "\<exists>b'. ble_circ_push string b = Inr b' \<and> holds b' (q @ [c_string string])"
  using push_holds[OF assms(1) c_string_no_zero, of string] assms(2)
  by (simp add: length_c_string push_c_string [symmetric])

lemma init_holds: "length (cbuf b) = CSIZE \<Longrightarrow> holds (ble_circ_init b) []"
  by (simp add: holds_def ble_circ_init_def queued_bytes_def ring_bytes_def CSIZE_def)

lemma holds_counter: "holds b q \<Longrightarrow> unat (size_c b) + length (queued_bytes q) = CSIZE"
  by (simp add: holds_def)

lemma holds_empty_counter: "holds b [] \<Longrightarrow> size_c b = of_nat CSIZE"
proof -
  assume "holds b []"
  then have "unat (size_c b) = unat (of_nat CSIZE :: u32)"
    by (simp add: holds_def queued_bytes_def CSIZE_def)
  then show ?thesis by (simp add: word_unat_eq_iff)
qed

lemma pop_test_holds:
  assumes h: "holds (ble_cbuf s) (p # q)"
  shows "\<exists>b'. ble_circ_pop True True evs s
                = Some (Inr (False, s\<lparr>ble_cbuf := b',
                                        result_str := p @ drop (length p) (result_str s)\<rparr>))
              \<and> holds b' q"
proof -
  define r where "r = pop_loop (length p) (update_circ_readindex (ble_cbuf s) 1)"
  note pk = pop_packet[OF h]
  have lenp: "unat (cbuf (ble_cbuf s) ! unat (read_ptr (ble_cbuf s))) = length p"
    by (rule pk(2))
  have rr: "pop_loop (length p) (update_circ_readindex (ble_cbuf s) 1) = (p, snd r)"
    using pk(3) unfolding lenp r_def by (metis prod.collapse)
  define b' where
    "b' = (snd r)\<lparr>size_c := ucast (ble_circ_space (snd r)) + of_nat (length p) + 1\<rparr>"
  have fits: "length p \<le> CSIZE"
    using h by (simp add: holds_def queued_bytes_def encode_packet_def)
  have "ble_circ_pop True True evs s
        = Some (Inr (False, s\<lparr>ble_cbuf := b',
                              result_str := p @ drop (length p) (result_str s)\<rparr>))"
    using pk(1) fits by (simp add: ble_circ_pop_def Let_def lenp rr b'_def)
  moreover have "holds b' q"
    using pk(4) unfolding lenp r_def [symmetric] by (simp add: b'_def)
  ultimately show ?thesis by blast
qed

lemma pop_operating_holds:
  assumes h: "holds (ble_cbuf s) (p # q)"
    and r: "ble_circ_pop False True evs s = Some (Inr (flag, s'))"
  shows "flag = False \<and> holds (ble_cbuf s') q"
proof -
  define r0 where "r0 = pop_loop (length p) (update_circ_readindex (ble_cbuf s) 1)"
  note pk = pop_packet[OF h]
  have lenp: "unat (cbuf (ble_cbuf s) ! unat (read_ptr (ble_cbuf s))) = length p"
    by (rule pk(2))
  have rr: "pop_loop (length p) (update_circ_readindex (ble_cbuf s) 1) = (p, snd r0)"
    using pk(3) unfolding lenp r0_def by (metis prod.collapse)
  from r pk(1) obtain s2 where
    sw: "send_and_wait (p @ [0]) (length p) evs (s\<lparr>ble_cbuf := snd r0\<rparr>) = Some (Inr s2)"
    and fl: "flag = False"
    and s': "s' = s2\<lparr>ble_cbuf := (ble_cbuf s2)\<lparr>size_c :=
                     ucast (ble_circ_space (ble_cbuf s2)) + of_nat (length p) + 1\<rparr>\<rparr>"
    by (auto simp: ble_circ_pop_def Let_def lenp rr split: option.splits sum.splits)
  have "ble_cbuf s2 = snd r0"
    using send_and_wait_keeps_ble_cbuf[OF sw] by simp
  moreover have "holds ((snd r0)\<lparr>size_c :=
                   ucast (ble_circ_space (snd r0)) + of_nat (length p) + 1\<rparr>) q"
    using pk(4) unfolding lenp r0_def [symmetric] .
  ultimately show ?thesis using fl s' by simp
qed

lemma queued_bytes_length_single: "length (queued_bytes [p]) = length p + 1"
  by (simp add: queued_bytes_def encode_packet_def)

lemma queued_bytes_length_two: "length (queued_bytes [p, p']) = length p + 1 + (length p' + 1)"
  by (simp add: queued_bytes_def encode_packet_def)


lemma pop_nothing_to_send:
  "size_c (ble_cbuf s) = of_nat CSIZE \<Longrightarrow> ble_circ_pop test tx_idle evs s = Some (Inr (True, s))"
  by (simp add: ble_circ_pop_def)

text \<open>
  Claim C2, as stated: three pushes of lengths 50, 25 and 5 into the empty queue, then
  three pops. The second push does not fit beside the first packet (51 + 26 > 64) and
  halts, so no pop is reached.
\<close>

theorem C2_three_pushes_halt:
  "queue_run [Push test_str_0, Push test_str_1, Push test_str_2,
              Pop True True [], Pop True True [], Pop True True []] opened_state
   = Some (Inl AssertFailed)"
proof -
  have "failure (queue_run [Push test_str_0, Push test_str_1, Push test_str_2,
                            Pop True True [], Pop True True [], Pop True True []] opened_state)
        = Some AssertFailed"
    by code_simp
  then show ?thesis by (rule failure_eq)
qed

text \<open>
  Claim C2, amended to the order of \<^verbatim>\<open>circular_buff_test\<close>. From the initialised queue,
  for any strings of lengths 50, 25 and 5: push the first and pop it in test mode, push
  the other two and pop twice. Every pop returns false and leaves in \<open>result_str\<close> the
  string that was pushed first among those queued; one more pop on the queue, now empty,
  returns true and leaves the whole state as it is.
\<close>

theorem C2_round_trip_in_test_order:
  assumes lc: "length (cbuf (ble_cbuf s)) = CSIZE"
    and l1: "strlen string1 = 50" and l2: "strlen string2 = 25" and l3: "strlen string3 = 5"
  shows "\<exists>s1 s2 s3.
           queue_run [Push string1, Pop True True evs1]
             (s\<lparr>ble_cbuf := ble_circ_init (ble_cbuf s)\<rparr>) = Some (Inr ([False], s1))
         \<and> take 50 (result_str s1) = c_string string1
         \<and> queue_run [Push string2, Push string3, Pop True True evs2] s1 = Some (Inr ([False], s2))
         \<and> take 25 (result_str s2) = c_string string2
         \<and> queue_run [Pop True True evs3] s2 = Some (Inr ([False], s3))
         \<and> take 5 (result_str s3) = c_string string3
         \<and> queue_run [Pop True True evs4] s3 = Some (Inr ([True], s3))"
proof -
  let ?p1 = "c_string string1" and ?p2 = "c_string string2" and ?p3 = "c_string string3"
  let ?s0 = "s\<lparr>ble_cbuf := ble_circ_init (ble_cbuf s)\<rparr>"
  have n1: "length ?p1 = 50" and n2: "length ?p2 = 25" and n3: "length ?p3 = 5"
    using l1 l2 l3 by (simp_all add: length_c_string)
  have h0: "holds (ble_cbuf ?s0) []" using lc by (simp add: init_holds)
  have "strlen string1 + 1 \<le> unat (size_c (ble_cbuf ?s0))"
    using holds_counter[OF h0] l1 by (simp add: queued_bytes_def CSIZE_def)
  from push_string_holds[OF h0 this] obtain b1 where
    pu1: "ble_circ_push string1 (ble_cbuf ?s0) = Inr b1" and h1: "holds b1 [?p1]"
    by auto
  let ?sa = "?s0\<lparr>ble_cbuf := b1\<rparr>"
  have "holds (ble_cbuf ?sa) (?p1 # [])" using h1 by simp
  from pop_test_holds[OF this, of evs1] obtain b2 where
    po1: "ble_circ_pop True True evs1 ?sa
          = Some (Inr (False, ?sa\<lparr>ble_cbuf := b2,
                                 result_str := ?p1 @ drop (length ?p1) (result_str ?sa)\<rparr>))"
    and h2: "holds b2 []"
    by blast
  define s1 where "s1 = ?sa\<lparr>ble_cbuf := b2,
                            result_str := ?p1 @ drop (length ?p1) (result_str ?sa)\<rparr>"
  have r1: "queue_run [Push string1, Pop True True evs1] ?s0 = Some (Inr ([False], s1))"
    using pu1 po1 by (simp add: s1_def)
  have t1: "take 50 (result_str s1) = ?p1" using n1 by (simp add: s1_def)
  have hs1: "holds (ble_cbuf s1) []" using h2 by (simp add: s1_def)
  have "strlen string2 + 1 \<le> unat (size_c (ble_cbuf s1))"
    using holds_counter[OF hs1] l2 by (simp add: queued_bytes_def CSIZE_def)
  from push_string_holds[OF hs1 this] obtain b3 where
    pu2: "ble_circ_push string2 (ble_cbuf s1) = Inr b3" and h3: "holds b3 [?p2]"
    by auto
  have "strlen string3 + 1 \<le> unat (size_c b3)"
    using holds_counter[OF h3] l3 n2 by (simp add: queued_bytes_length_single CSIZE_def)
  from push_string_holds[OF h3 this] obtain b4 where
    pu3: "ble_circ_push string3 b3 = Inr b4" and h4: "holds b4 [?p2, ?p3]"
    by auto
  let ?sb = "s1\<lparr>ble_cbuf := b4\<rparr>"
  have "holds (ble_cbuf ?sb) (?p2 # [?p3])" using h4 by simp
  from pop_test_holds[OF this, of evs2] obtain b5 where
    po2: "ble_circ_pop True True evs2 ?sb
          = Some (Inr (False, ?sb\<lparr>ble_cbuf := b5,
                                 result_str := ?p2 @ drop (length ?p2) (result_str ?sb)\<rparr>))"
    and h5: "holds b5 [?p3]"
    by blast
  define s2 where "s2 = ?sb\<lparr>ble_cbuf := b5,
                            result_str := ?p2 @ drop (length ?p2) (result_str ?sb)\<rparr>"
  have r2: "queue_run [Push string2, Push string3, Pop True True evs2] s1
            = Some (Inr ([False], s2))"
    using pu2 pu3 po2 by (simp add: s2_def)
  have t2: "take 25 (result_str s2) = ?p2" using n2 by (simp add: s2_def)
  have "holds (ble_cbuf s2) (?p3 # [])" using h5 by (simp add: s2_def)
  from pop_test_holds[OF this, of evs3] obtain b6 where
    po3: "ble_circ_pop True True evs3 s2
          = Some (Inr (False, s2\<lparr>ble_cbuf := b6,
                                result_str := ?p3 @ drop (length ?p3) (result_str s2)\<rparr>))"
    and h6: "holds b6 []"
    by blast
  define s3 where "s3 = s2\<lparr>ble_cbuf := b6,
                           result_str := ?p3 @ drop (length ?p3) (result_str s2)\<rparr>"
  have r3: "queue_run [Pop True True evs3] s2 = Some (Inr ([False], s3))"
    using po3 by (simp add: s3_def)
  have t3: "take 5 (result_str s3) = ?p3" using n3 by (simp add: s3_def)
  have "size_c (ble_cbuf s3) = of_nat CSIZE"
    using holds_empty_counter[OF h6] by (simp add: s3_def)
  then have "ble_circ_pop True True evs4 s3 = Some (Inr (True, s3))"
    by (rule pop_nothing_to_send)
  then have r4: "queue_run [Pop True True evs4] s3 = Some (Inr ([True], s3))"
    by simp
  from r1 t1 r2 t2 r3 t3 r4 show ?thesis by blast
qed

theorem C2_round_trip_in_test_order_witness:
  "length (cbuf (ble_cbuf opened_state)) = CSIZE
   \<and> strlen test_str_0 = 50 \<and> strlen test_str_1 = 25 \<and> strlen test_str_2 = 5
   \<and> (\<exists>s1 s2 s3.
           queue_run [Push test_str_0, Pop True True []]
             (opened_state\<lparr>ble_cbuf := ble_circ_init (ble_cbuf opened_state)\<rparr>)
             = Some (Inr ([False], s1))
         \<and> take 50 (result_str s1) = c_string test_str_0
         \<and> queue_run [Push test_str_1, Push test_str_2, Pop True True []] s1
             = Some (Inr ([False], s2))
         \<and> take 25 (result_str s2) = c_string test_str_1
         \<and> queue_run [Pop True True []] s2 = Some (Inr ([False], s3))
         \<and> take 5 (result_str s3) = c_string test_str_2
         \<and> queue_run [Pop True True []] s3 = Some (Inr ([True], s3)))"
proof -
  have a: "length (cbuf (ble_cbuf opened_state)) = CSIZE"
    by code_simp
  have b: "strlen test_str_0 = 50" "strlen test_str_1 = 25" "strlen test_str_2 = 5"
    by code_simp+
  from C2_round_trip_in_test_order [OF a b, of "[]" "[]" "[]" "[]"] a b show ?thesis by blast
qed

text \<open>
  Claim C4 at the input where the code departs from it. With the 50-byte packet queued
  the counter is 13. A string of 13 bytes needs 14, so the push should halt; it is
  accepted, the counter wraps below zero, and the write runs over index 0, where the
  length byte of the packet still queued was.
\<close>

theorem C4_push_of_counter_length_accepted:
  "size_c (ble_cbuf (snd (result (queue_run [Push test_str_0] opened_state)))) = 13
   \<and> strlen str_13 = 13
   \<and> returned (queue_run [Push test_str_0, Push str_13] opened_state)
   \<and> size_c (ble_cbuf (snd (result (queue_run [Push test_str_0, Push str_13] opened_state))))
       = 0xFFFFFFFF
   \<and> cbuf (ble_cbuf (snd (result (queue_run [Push test_str_0] opened_state)))) ! 0 = 50
   \<and> cbuf (ble_cbuf (snd (result (queue_run [Push test_str_0, Push str_13] opened_state)))) ! 0
       = of_char CHR ''x''"
proof -
  have a: "size_c (ble_cbuf (snd (result (queue_run [Push test_str_0] opened_state)))) = 13"
    by code_simp
  have b: "strlen str_13 = 13"
    by code_simp
  have c: "returned (queue_run [Push test_str_0, Push str_13] opened_state)"
    by code_simp
  have d: "size_c (ble_cbuf (snd (result (queue_run [Push test_str_0, Push str_13]
             opened_state)))) = 0xFFFFFFFF"
    by code_simp
  have e: "cbuf (ble_cbuf (snd (result (queue_run [Push test_str_0] opened_state)))) ! 0 = 50"
    by code_simp
  have f: "cbuf (ble_cbuf (snd (result (queue_run [Push test_str_0, Push str_13]
             opened_state)))) ! 0 = of_char CHR ''x''"
    by code_simp
  from a b c d e f show ?thesis by blast
qed

text \<open>
  Claim C6 at an input where the code departs from it. After pushes of 50, 13 and 5
  bytes the packets queued account for 51 + 14 + 6 = 71 bytes, more than the capacity;
  the counter is 249.
\<close>

theorem C6_counter_after_overfull_push:
  "returned (queue_run [Push test_str_0, Push str_13, Push test_str_2] opened_state)
   \<and> size_c (ble_cbuf (snd (result (queue_run [Push test_str_0, Push str_13, Push test_str_2]
                                       opened_state)))) = 249
   \<and> (strlen test_str_0 + 1) + (strlen str_13 + 1) + (strlen test_str_2 + 1) = 71"
proof -
  have a: "returned (queue_run [Push test_str_0, Push str_13, Push test_str_2] opened_state)"
    by code_simp
  have b: "size_c (ble_cbuf (snd (result (queue_run [Push test_str_0, Push str_13,
             Push test_str_2] opened_state)))) = 249"
    by code_simp
  have c: "(strlen test_str_0 + 1) + (strlen str_13 + 1) + (strlen test_str_2 + 1) = 71"
    by code_simp
  from a b c show ?thesis by blast
qed

section \<open>Properties of the bus transaction engine\<close>

lemmas i2c_defs = i2c_transaction_def i2c_device_script_def i2c_interrupt_def I2C0_IRQHandler_def
  I2C_Start_def I2C_ACK_def I2C_NACK_def I2C_RXDATAV_def I2C_MSTOP_def
  sleep_block_mode_def sleep_unblock_mode_def sleep_block_mode_tbl_def sleep_unblock_mode_tbl_def
  post_event_def Let_def

text \<open>
  Claim C3, as stated for every byte count, at N = 3: the device delivers 0x01, 0x02,
  0x03. Each byte but the last overwrites the destination, so it ends as 0x0203 and
  not as the three bytes most significant first.
\<close>

theorem C3_three_bytes_keep_last_two:
  "i2c_data (i2c_transaction \<lparr>init_device_address = 0x40, init_bytes = 3, init_cmd = 0xF3\<rparr>
               (i2c_device_script [0x01, 0x02, 0x03]) reset_state) = Some 0x0203
   \<and> i2c_data (i2c_transaction \<lparr>init_device_address = 0x40, init_bytes = 3, init_cmd = 0xF3\<rparr>
                 (i2c_device_script [0x01, 0x02, 0x03]) reset_state)
       \<noteq> Some (msb_first [0x01, 0x02, 0x03])"
  by code_simp

text \<open>
  Claim C3, amended to the byte count 2. From any state, for any address and command: the
  device acknowledges address and command, refuses the first read address, acknowledges
  the second and delivers two bytes. After the second byte the engine is in
  \<open>end_process\<close> with no event posted yet; after the stop it is back in
  \<open>initialize\<close>, the destination holds the two bytes most significant first, exactly
  one event, \<^verbatim>\<open>SI7021_READ_EVT\<close>, has been posted, and the block table is as before the
  start.
\<close>

theorem C3_two_byte_transaction:
  "(\<exists>s1. i2c_transaction \<lparr>init_device_address = a, init_bytes = 2, init_cmd = c\<rparr>
            [Ack, Ack, Nack, Ack, Byte b1, Byte b2] s = Inr s1
         \<and> current_state (payload s1) = end_process
         \<and> posted s1 = posted s)
   \<and> (\<exists>s'. i2c_transaction \<lparr>init_device_address = a, init_bytes = 2, init_cmd = c\<rparr>
              (i2c_device_script [b1, b2]) s = Inr s'
         \<and> current_state (payload s') = initialize
         \<and> data (payload s') = msb_first [b1, b2]
         \<and> posted s' = posted s @ [SI7021_READ_EVT]
         \<and> blocks s' = blocks s)"
proof -
  have a: "\<exists>s1. i2c_transaction \<lparr>init_device_address = a, init_bytes = 2, init_cmd = c\<rparr>
            [Ack, Ack, Nack, Ack, Byte b1, Byte b2] s = Inr s1
         \<and> current_state (payload s1) = end_process
         \<and> posted s1 = posted s"
    by (simp add: i2c_defs)
  have b: "\<exists>s'. i2c_transaction \<lparr>init_device_address = a, init_bytes = 2, init_cmd = c\<rparr>
              (i2c_device_script [b1, b2]) s = Inr s'
         \<and> current_state (payload s') = initialize
         \<and> data (payload s') = msb_first [b1, b2]
         \<and> posted s' = posted s @ [SI7021_READ_EVT]
         \<and> blocks s' = blocks s"
    by (simp add: i2c_defs msb_first_def fun_upd_idem)
  from a b show ?thesis by blast
qed

section \<open>Properties of the link receiver\<close>

lemmas leuart_defs = hw_step_def leuart_hw_def IF_reg_def irq_pending_def LEUART0_IRQHandler_def
  STARTF_Interrupt_def RXDATAV_Interrupt_def SIGF_Interrupt_def TXBL_Interrupt_def TXC_Interrupt_def
  RXDATA_read_def TXDATA_write_def post_event_def

lemma rx_frame_general:
  "\<exists>s'. hw_run (map RX_frame (bytes_of ''#ABC?'')) (leuart_open s) = Some (Inr s')
      \<and> received_str (lePayload s')
          = (received_str (lePayload s))[0 := 0x23, 1 := 0x41, 2 := 0x42, 3 := 0x43, 4 := 0x3F, 5 := 0]
      \<and> rx_count (lePayload s') = 6
      \<and> posted s' = posted s @ [LEUART_RX_EVT (app s)]
      \<and> rx_state (lePayload s') = idle
      \<and> \<not> rxbusy (lePayload s')
      \<and> blocks s' = (blocks s)(LEUART_EM := blocks s LEUART_EM + 1)"
  by (simp add: bytes_of_def leuart_open_def Let_def sleep_block_mode_def sleep_block_mode_tbl_def
        STARTF_CHAR_def SIGF_CHAR_def LEUART_STR_SIZE_def leuart_defs service.simps)

lemma upd6:
  assumes "length xs = 80"
  shows "take 6 (xs[0 := a, 1 := b, 2 := c, 3 := d, 4 := e, 5 := f]) = [a, b, c, d, e, f]"
proof -
  have "\<forall>i<6. (xs[0 := a, 1 := b, 2 := c, 3 := d, 4 := e, 5 := f]) ! i = [a, b, c, d, e, f] ! i"
  proof (intro allI impI)
    fix i :: nat assume "i < 6"
    then consider "i = 0" | "i = 1" | "i = 2" | "i = 3" | "i = 4" | "i = 5" by linarith
    then show "(xs[0 := a, 1 := b, 2 := c, 3 := d, 4 := e, 5 := f]) ! i = [a, b, c, d, e, f] ! i"
      using assms by cases simp_all
  qed
  then show ?thesis
    using assms by (intro nth_equalityI) auto
qed

lemma c_string_prefix:
  "take (length p + 1) buf = p @ [0] \<Longrightarrow> 0 \<notin> set p \<Longrightarrow> c_string buf = p"
proof -
  assume t: "take (length p + 1) buf = p @ [0]" and z: "0 \<notin> set p"
  have "buf = (p @ [0]) @ drop (length p + 1) buf"
    using t by (metis append_take_drop_id)
  then have "c_string buf = takeWhile (\<lambda>c. c \<noteq> 0) (p @ 0 # drop (length p + 1) buf)"
    by (simp add: c_string_def)
  also have "\<dots> = p"
    using z by (auto simp: takeWhile_tail)
  finally show ?thesis .
qed


text \<open>
  The model of the peripheral against the driver's own test: \<^verbatim>\<open>leuart_rx_test\<close> sends
  \<^verbatim>\<open>Hello#Test4U?\<close>, a line feed and \<^verbatim>\<open>RXTestPass...\<close> through the loopback and asserts
  that \<open>received_str\<close> compares equal to \<^verbatim>\<open>#Test4U?\<close>. The characters before the start
  frame and after the stop frame are blocked, and both markers are in the message.
\<close>

lemma leuart_rx_test_message:
  "received_message
     (hw_run (map RX_frame (bytes_of ''Hello#Test4U?'' @ [0x0A] @ bytes_of ''RXTestPass...''))
        (leuart_open reset_state))
   = Some (bytes_of ''#Test4U?'')"
  by code_simp

text \<open>
  Claim C1, as stated: after the frames \<^verbatim>\<open>#ABC?\<close> the message held is \<^verbatim>\<open>ABC\<close>. The
  receiver, opened from the reset state, holds \<^verbatim>\<open>#ABC?\<close>: the start frame is still in
  the receive buffer when the state has become \<open>receive\<close>, and the stop frame raises
  RXDATAV together with SIGF, whose handler runs second.
\<close>

theorem C1_message_keeps_markers:
  "received_message (hw_run (map RX_frame (bytes_of ''#ABC?'')) (leuart_open reset_state))
     = Some (bytes_of ''#ABC?'')
   \<and> received_message (hw_run (map RX_frame (bytes_of ''#ABC?'')) (leuart_open reset_state))
       \<noteq> Some (bytes_of ''ABC'')"
  by code_simp

text \<open>
  Claim C1, amended. From the state in which \<^verbatim>\<open>leuart_open\<close> leaves the receiver (idle,
  not busy), whatever the state before: the frames \<^verbatim>\<open>#\<close>, \<^verbatim>\<open>A\<close>, \<^verbatim>\<open>B\<close>, \<^verbatim>\<open>C\<close>, \<^verbatim>\<open>?\<close>
  leave \<^verbatim>\<open>#ABC?\<close> followed by a zero byte at the front of \<open>received_str\<close>, both markers
  included; exactly one event, \<^verbatim>\<open>LEUART_RX_EVT\<close>, is posted, and the receiver is idle
  and not busy again.
\<close>

theorem C1_frame_stored_with_markers:
  assumes "length (received_str (lePayload s)) = 80"
  shows "\<exists>s'. hw_run (map RX_frame (bytes_of ''#ABC?'')) (leuart_open s) = Some (Inr s')
      \<and> take 6 (received_str (lePayload s')) = bytes_of ''#ABC?'' @ [0]
      \<and> c_string (received_str (lePayload s')) = bytes_of ''#ABC?''
      \<and> posted s' = posted s @ [LEUART_RX_EVT (app s)]
      \<and> rx_state (lePayload s') = idle
      \<and> \<not> leuart_rx_busy s'"
proof -
  from rx_frame_general [of s] obtain s' where
    run: "hw_run (map RX_frame (bytes_of ''#ABC?'')) (leuart_open s) = Some (Inr s')"
    and str: "received_str (lePayload s')
          = (received_str (lePayload s))[0 := 0x23, 1 := 0x41, 2 := 0x42, 3 := 0x43, 4 := 0x3F, 5 := 0]"
    and rest: "posted s' = posted s @ [LEUART_RX_EVT (app s)]" "rx_state (lePayload s') = idle"
      "\<not> rxbusy (lePayload s')"
    by blast
  have t: "take 6 (received_str (lePayload s')) = bytes_of ''#ABC?'' @ [0]"
    using upd6 [OF assms] str by (simp add: bytes_of_def)
  have len: "length (bytes_of ''#ABC?'') + 1 = 6"
    by (simp add: bytes_of_def)
  have nz: "0 \<notin> set (bytes_of ''#ABC?'')"
    by (simp add: bytes_of_def)
  have "take (length (bytes_of ''#ABC?'') + 1) (received_str (lePayload s'))
        = bytes_of ''#ABC?'' @ [0]"
    by (simp only: len t)
  then have "c_string (received_str (lePayload s')) = bytes_of ''#ABC?''"
    using nz by (rule c_string_prefix)
  with run t rest show ?thesis by (auto simp: leuart_rx_busy_def)
qed


theorem C1_frame_stored_with_markers_witness:
  "length (received_str (lePayload reset_state)) = 80
   \<and> (\<exists>s'. hw_run (map RX_frame (bytes_of ''#ABC?'')) (leuart_open reset_state) = Some (Inr s')
      \<and> take 6 (received_str (lePayload s')) = bytes_of ''#ABC?'' @ [0]
      \<and> c_string (received_str (lePayload s')) = bytes_of ''#ABC?''
      \<and> posted s' = posted reset_state @ [LEUART_RX_EVT (app reset_state)]
      \<and> rx_state (lePayload s') = idle
      \<and> \<not> leuart_rx_busy s')"
proof -
  have h: "length (received_str (lePayload reset_state)) = 80"
    by (simp add: reset_state_def)
  from C1_frame_stored_with_markers [OF h] h show ?thesis by blast
qed

section \<open>Properties of the power-mode blocks\<close>

text \<open>
  Claim C7, as stated for the receiver: the block that opening the receiver takes is
  released when the stop marker is seen. From the reset state \<^verbatim>\<open>leuart_open\<close> raises the
  count of \<^verbatim>\<open>LEUART_EM\<close> from 0 to 1; after a whole frame, with the event posted, it is
  still 1.
\<close>

theorem C7_receiver_block_not_released:
  "returned (hw_run (map RX_frame (bytes_of ''#ABC?'')) (leuart_open reset_state))
   \<and> posted (result (hw_run (map RX_frame (bytes_of ''#ABC?'')) (leuart_open reset_state)))
       = [LEUART_RX_EVT example_app_h]
   \<and> blocks reset_state LEUART_EM = 0
   \<and> blocks (leuart_open reset_state) LEUART_EM = 1
   \<and> blocks (result (hw_run (map RX_frame (bytes_of ''#ABC?'')) (leuart_open reset_state)))
        LEUART_EM = 1"
  by code_simp

text \<open>
  Claim C7, amended. \<^verbatim>\<open>I2C_Start\<close> adds one block of \<^verbatim>\<open>I2C_EM_BLOCK\<close> and the stop
  handler, where it does not halt, takes one off; \<^verbatim>\<open>leuart_start\<close> adds one block of
  \<^verbatim>\<open>LEUART_EM\<close> and the handler of transmission complete takes one off; \<^verbatim>\<open>leuart_open\<close>
  adds one block of \<^verbatim>\<open>LEUART_EM\<close>, and the handler of the stop marker leaves the table
  as it is.
\<close>

theorem C7_blocks_of_bus_transmitter_receiver:
  "(\<exists>s1. I2C_Start True i2c_load s = Inr s1
          \<and> blocks s1 = (blocks s)(I2C_EM_BLOCK := blocks s I2C_EM_BLOCK + 1))
   \<and> (I2C_MSTOP sa = Inr sa' \<longrightarrow>
        0 < blocks sa I2C_EM_BLOCK
        \<and> blocks sa' = (blocks sa)(I2C_EM_BLOCK := blocks sa I2C_EM_BLOCK - 1))
   \<and> blocks (leuart_start string string_len s) = (blocks s)(LEUART_EM := blocks s LEUART_EM + 1)
   \<and> (TXC_Interrupt sb = Inr sb' \<longrightarrow>
        0 < blocks sb LEUART_EM
        \<and> blocks sb' = (blocks sb)(LEUART_EM := blocks sb LEUART_EM - 1))
   \<and> blocks (leuart_open s) = (blocks s)(LEUART_EM := blocks s LEUART_EM + 1)
   \<and> (SIGF_Interrupt sc = Inr sc' \<longrightarrow> blocks sc' = blocks sc)"
proof -
  have a: "\<exists>s1. I2C_Start True i2c_load s = Inr s1
          \<and> blocks s1 = (blocks s)(I2C_EM_BLOCK := blocks s I2C_EM_BLOCK + 1)"
    by (simp add: I2C_Start_def Let_def sleep_block_mode_def sleep_block_mode_tbl_def)
  have b: "I2C_MSTOP sa = Inr sa' \<longrightarrow>
        0 < blocks sa I2C_EM_BLOCK
        \<and> blocks sa' = (blocks sa)(I2C_EM_BLOCK := blocks sa I2C_EM_BLOCK - 1)"
    by (auto simp: I2C_MSTOP_def sleep_unblock_mode_def sleep_unblock_mode_tbl_def post_event_def
             split: i2c_defined_states.splits if_splits)
  have c: "blocks (leuart_start string string_len s)
           = (blocks s)(LEUART_EM := blocks s LEUART_EM + 1)"
    by (simp add: leuart_start_def Let_def sleep_block_mode_def sleep_block_mode_tbl_def)
  have d: "TXC_Interrupt sb = Inr sb' \<longrightarrow>
        0 < blocks sb LEUART_EM
        \<and> blocks sb' = (blocks sb)(LEUART_EM := blocks sb LEUART_EM - 1)"
    by (auto simp: TXC_Interrupt_def sleep_unblock_mode_def sleep_unblock_mode_tbl_def
                   post_event_def Let_def
             split: leuart_tx_states.splits if_splits)
  have e: "blocks (leuart_open s) = (blocks s)(LEUART_EM := blocks s LEUART_EM + 1)"
    by (simp add: leuart_open_def Let_def sleep_block_mode_def sleep_block_mode_tbl_def)
  have f: "SIGF_Interrupt sc = Inr sc' \<longrightarrow> blocks sc' = blocks sc"
    by (auto simp: SIGF_Interrupt_def post_event_def Let_def split: leuart_rx_states.splits)
  from a b c d e f show ?thesis by blast
qed


theorem C7_blocks_of_bus_transmitter_receiver_witness:
  "I2C_MSTOP bus_before_stop = Inr (result (Some (I2C_MSTOP bus_before_stop)))
   \<and> 0 < blocks bus_before_stop I2C_EM_BLOCK
   \<and> blocks (result (Some (I2C_MSTOP bus_before_stop)))
       = (blocks bus_before_stop)(I2C_EM_BLOCK := blocks bus_before_stop I2C_EM_BLOCK - 1)
   \<and> TXC_Interrupt tx_drained = Inr (result (Some (TXC_Interrupt tx_drained)))
   \<and> 0 < blocks tx_drained LEUART_EM
   \<and> blocks (result (Some (TXC_Interrupt tx_drained)))
       = (blocks tx_drained)(LEUART_EM := blocks tx_drained LEUART_EM - 1)
   \<and> SIGF_Interrupt rx_before_stop_marker
       = Inr (result (Some (SIGF_Interrupt rx_before_stop_marker)))
   \<and> blocks (result (Some (SIGF_Interrupt rx_before_stop_marker)))
       = blocks rx_before_stop_marker"
proof -
  have "returned (Some (I2C_MSTOP bus_before_stop))"
    by code_simp
  then have a: "I2C_MSTOP bus_before_stop = Inr (result (Some (I2C_MSTOP bus_before_stop)))"
    by (rule sum_returned)
  have "returned (Some (TXC_Interrupt tx_drained))"
    by code_simp
  then have b: "TXC_Interrupt tx_drained = Inr (result (Some (TXC_Interrupt tx_drained)))"
    by (rule sum_returned)
  have "returned (Some (SIGF_Interrupt rx_before_stop_marker))"
    by code_simp
  then have c: "SIGF_Interrupt rx_before_stop_marker
                = Inr (result (Some (SIGF_Interrupt rx_before_stop_marker)))"
    by (rule sum_returned)
  from C7_blocks_of_bus_transmitter_receiver
         [of _ _ bus_before_stop "result (Some (I2C_MSTOP bus_before_stop))"
             _ _ tx_drained "result (Some (TXC_Interrupt tx_drained))"
             rx_before_stop_marker "result (Some (SIGF_Interrupt rx_before_stop_marker))"]
       a b c
  show ?thesis by blast
qed

section \<open>Popping in operating mode\<close>















section \<open>The loop of main and the receive event\<close>

lemma main_loop_body_idle:
  assumes "event_scheduled s = LEUART_RX_EVT (app s)"
    and "LEUART_RX_EVT (app s) \<noteq> 0"
    and "LEUART_RX_EVT (app s) AND LETIMER0_UF_EVT (app s) = 0"
    and "LEUART_RX_EVT (app s) AND LETIMER0_COMP0_EVT (app s) = 0"
    and "LEUART_RX_EVT (app s) AND LETIMER0_COMP1_EVT (app s) = 0"
    and "LEUART_RX_EVT (app s) AND SI7021_READ_EVT = 0"
    and "LEUART_RX_EVT (app s) AND BOOT_UP_EVT (app s) = 0"
    and "LEUART_RX_EVT (app s) AND LEUART_TX_EVT (app s) = 0"
  shows "main_loop_body h s = Some (Inr s)"
  using assms by (simp add: main_loop_body_def pending_def get_scheduled_events_def)

text \<open>
  Claim C8 at the input where the code departs from it. The pending word holds the
  receive event that \<^verbatim>\<open>SIGF_Interrupt\<close> posts, and no other; its mask shares no bit with
  the six masks that the loop tests. Then no pass of the loop calls a handler or
  \<^verbatim>\<open>enter_sleep\<close>, whatever these are, and the state is the same after any number of
  passes: the bit stays pending.
\<close>

theorem C8_receive_event_never_serviced:
  assumes "event_scheduled s = LEUART_RX_EVT (app s)"
    and "LEUART_RX_EVT (app s) \<noteq> 0"
    and "LEUART_RX_EVT (app s) AND LETIMER0_UF_EVT (app s) = 0"
    and "LEUART_RX_EVT (app s) AND LETIMER0_COMP0_EVT (app s) = 0"
    and "LEUART_RX_EVT (app s) AND LETIMER0_COMP1_EVT (app s) = 0"
    and "LEUART_RX_EVT (app s) AND SI7021_READ_EVT = 0"
    and "LEUART_RX_EVT (app s) AND BOOT_UP_EVT (app s) = 0"
    and "LEUART_RX_EVT (app s) AND LEUART_TX_EVT (app s) = 0"
  shows "main_loop n h s = Some (Inr s)"
proof (induction n)
  case 0
  show ?case by simp
next
  case (Suc n)
  have "main_loop_body h s = Some (Inr s)"
    using assms by (rule main_loop_body_idle)
  with Suc show ?case by simp
qed

theorem C8_receive_event_never_serviced_witness:
  "event_scheduled rx_posted = LEUART_RX_EVT (app rx_posted)
   \<and> LEUART_RX_EVT (app rx_posted) \<noteq> 0
   \<and> LEUART_RX_EVT (app rx_posted) AND LETIMER0_UF_EVT (app rx_posted) = 0
   \<and> LEUART_RX_EVT (app rx_posted) AND LETIMER0_COMP0_EVT (app rx_posted) = 0
   \<and> LEUART_RX_EVT (app rx_posted) AND LETIMER0_COMP1_EVT (app rx_posted) = 0
   \<and> LEUART_RX_EVT (app rx_posted) AND SI7021_READ_EVT = 0
   \<and> LEUART_RX_EVT (app rx_posted) AND BOOT_UP_EVT (app rx_posted) = 0
   \<and> LEUART_RX_EVT (app rx_posted) AND LEUART_TX_EVT (app rx_posted) = 0
   \<and> main_loop 3 no_handlers rx_posted = Some (Inr rx_posted)"
proof -
  have h1: "event_scheduled rx_posted = LEUART_RX_EVT (app rx_posted)"
    by code_simp
  have h2: "LEUART_RX_EVT (app rx_posted) \<noteq> 0"
    by code_simp
  have h3: "LEUART_RX_EVT (app rx_posted) AND LETIMER0_UF_EVT (app rx_posted) = 0"
    by code_simp
  have h4: "LEUART_RX_EVT (app rx_posted) AND LETIMER0_COMP0_EVT (app rx_posted) = 0"
    by code_simp
  have h5: "LEUART_RX_EVT (app rx_posted) AND LETIMER0_COMP1_EVT (app rx_posted) = 0"
    by code_simp
  have h6: "LEUART_RX_EVT (app rx_posted) AND SI7021_READ_EVT = 0"
    by code_simp
  have h7: "LEUART_RX_EVT (app rx_posted) AND BOOT_UP_EVT (app rx_posted) = 0"
    by code_simp
  have h8: "LEUART_RX_EVT (app rx_posted) AND LEUART_TX_EVT (app rx_posted) = 0"
    by code_simp
  from C8_receive_event_never_serviced [OF h1 h2 h3 h4 h5 h6 h7 h8, of 3 no_handlers]
       h1 h2 h3 h4 h5 h6 h7 h8
  show ?thesis by blast
qed

end
